theory Spec2Isabelle
  imports Main "HOL-Library.Word"
begin

unbundle bit_operations_syntax

section \<open>Machine integers, runtime panics and error values\<close>

text \<open>
  \<^verbatim>\<open>byte\<close> and \<^verbatim>\<open>uint32\<close> are words, whose arithmetic wraps around as Go's does.
  An \<^verbatim>\<open>int64\<close> is an \<open>int\<close> between \<open>- 2 ^ 63\<close> and \<open>2 ^ 63 - 1\<close>; every
  \<^verbatim>\<open>int64\<close> operation that can leave that range is followed by \<open>wrap64\<close>, the
  two's complement wrap-around Go defines for signed overflow.
\<close>

type_synonym u8 = "8 word"
type_synonym u32 = "32 word"

definition wrap64 :: "int \<Rightarrow> int" where
  "wrap64 x = (x + 2 ^ 63) mod 2 ^ 64 - 2 ^ 63"

text \<open>
  Go's \<^verbatim>\<open>/\<close> and \<^verbatim>\<open>%\<close> on integers truncate towards zero, and the remainder has
  the sign of the dividend. A zero divisor panics: the callers below test for it before
  they use \<open>rem64\<close>, and \<open>quot64\<close> is only ever called with the divisor 2.
\<close>

definition quot64 :: "int \<Rightarrow> int \<Rightarrow> int" where
  "quot64 a b = wrap64 (sgn a * sgn b * (\<bar>a\<bar> div \<bar>b\<bar>))"

definition rem64 :: "int \<Rightarrow> int \<Rightarrow> int" where
  "rem64 a b = sgn a * (\<bar>a\<bar> mod \<bar>b\<bar>)"

datatype panic = IndexOutOfRange | DivideByZero

text \<open>
  The values of Go's \<^verbatim>\<open>error\<close> interface that can occur here: the two errors of the
  package, \<^verbatim>\<open>io.EOF\<close>, and any other error of the byte source, identified by its
  message. \<^verbatim>\<open>nil\<close> is \<open>None\<close> of \<open>go_error option\<close>.
\<close>

datatype go_error = ErrSmallInput | ErrSmallBlock | EOF | IOFailure string

section \<open>Constants\<close>

definition rollingWindow :: u32 where "rollingWindow = 7"
definition blockMin :: int where "blockMin = 3"
definition spamSumLength :: int where "spamSumLength = 64"
definition minFileSize :: int where "minFileSize = 4096"
definition hashPrime :: u32 where "hashPrime = 0x01000193"
definition hashInit :: u32 where "hashInit = 0x28021967"
definition b64String :: string where
  "b64String = ''ABCDEFGHIJKLMNOPQRSTUVWXYZabcdefghijklmnopqrstuvwxyz0123456789+/''"
definition b64 :: string where "b64 = b64String"

section \<open>The rolling state and the digest state\<close>

record rollingState =
  window :: "u8 list"
  h1 :: u32
  h2 :: u32
  h3 :: u32
  n :: u32

definition rollSum :: "rollingState \<Rightarrow> u32" where
  "rollSum rs = h1 rs + h2 rs + h3 rs"

record ssdeepState =
  rollingState :: rollingState
  blockSize :: int
  hashString1 :: string
  hashString2 :: string
  blockHash1 :: u32
  blockHash2 :: u32

text \<open>\<^verbatim>\<open>make([]byte, rollingWindow)\<close> is a slice of 7 zero bytes; the fields the
  composite literal leaves out have their zero values.\<close>

definition newSsdeepState :: ssdeepState where
  "newSsdeepState =
     \<lparr>rollingState = \<lparr>window = replicate (unat rollingWindow) 0, h1 = 0, h2 = 0, h3 = 0, n = 0\<rparr>,
      blockSize = 0, hashString1 = [], hashString2 = [],
      blockHash1 = hashInit, blockHash2 = hashInit\<rparr>"

definition newRollingState :: "ssdeepState \<Rightarrow> ssdeepState" where
  "newRollingState state =
     state\<lparr>rollingState :=
       \<lparr>window = replicate (unat rollingWindow) 0, h1 = 0, h2 = 0, h3 = 0, n = 0\<rparr>\<rparr>"

definition sumHash :: "u8 \<Rightarrow> u32 \<Rightarrow> u32" where
  "sumHash c h = (h * hashPrime) XOR ucast c"

text \<open>\<^verbatim>\<open>rs.window[rs.n]\<close> panics when the index is not below the length of the slice.\<close>

definition rollHash :: "u8 \<Rightarrow> ssdeepState \<Rightarrow> panic + ssdeepState" where
  "rollHash c state =
     (let rs = rollingState state;
          rs = rs\<lparr>h2 := h2 rs - h1 rs\<rparr>;
          rs = rs\<lparr>h2 := h2 rs + rollingWindow * ucast c\<rparr>;
          rs = rs\<lparr>h1 := h1 rs + ucast c\<rparr>
      in if \<not> unat (n rs) < length (window rs) then Inl IndexOutOfRange
         else
           let rs = rs\<lparr>h1 := h1 rs - ucast (window rs ! unat (n rs))\<rparr>;
               rs = rs\<lparr>window := (window rs)[unat (n rs) := c]\<rparr>;
               rs = rs\<lparr>n := n rs + 1\<rparr>;
               rs = (if n rs = rollingWindow then rs\<lparr>n := 0\<rparr> else rs);
               rs = rs\<lparr>h3 := push_bit 5 (h3 rs)\<rparr>;
               rs = rs\<lparr>h3 := h3 rs XOR ucast c\<rparr>
           in Inr (state\<lparr>rollingState := rs\<rparr>))"

section \<open>Block size selection\<close>

text \<open>
  The loop of \<^verbatim>\<open>getBlockSize\<close>. Both products are \<^verbatim>\<open>int64\<close> products and wrap
  around. The loop has no bound of its own, so it is a partial function: \<open>None\<close> means
  that it never returns.
\<close>

partial_function (option) getBlockSize_loop :: "int \<Rightarrow> int \<Rightarrow> int option" where
  "getBlockSize_loop bs len =
     (if wrap64 (bs * spamSumLength) < len then getBlockSize_loop (wrap64 (bs * 2)) len
      else Some bs)"

declare getBlockSize_loop.simps [code]

definition getBlockSize :: "int \<Rightarrow> ssdeepState \<Rightarrow> ssdeepState option" where
  "getBlockSize len state =
     (case getBlockSize_loop blockMin len of
        None \<Rightarrow> None
      | Some bs \<Rightarrow> Some (state\<lparr>blockSize := bs\<rparr>))"

section \<open>One byte\<close>

text \<open>
  \<^verbatim>\<open>rh\<close> is the rolling sum converted to \<^verbatim>\<open>int64\<close>, so it is never negative. Both
  remainders panic on a zero divisor. \<^verbatim>\<open>string(b64[k])\<close> is the one-character string
  of that byte, all bytes of the alphabet being ASCII.
\<close>

definition processByte :: "u8 \<Rightarrow> ssdeepState \<Rightarrow> panic + ssdeepState" where
  "processByte b state =
     (let state = state\<lparr>blockHash1 := sumHash b (blockHash1 state)\<rparr>;
          state = state\<lparr>blockHash2 := sumHash b (blockHash2 state)\<rparr>
      in case rollHash b state of
           Inl p \<Rightarrow> Inl p
         | Inr state \<Rightarrow>
             let rh = uint (rollSum (rollingState state)) in
             if blockSize state = 0 then Inl DivideByZero
             else if rem64 rh (blockSize state) = wrap64 (blockSize state - 1) then
               let state =
                 (if int (length (hashString1 state)) < spamSumLength - 1
                  then state\<lparr>hashString1 :=
                               hashString1 state @ [b64 ! unat (blockHash1 state mod 64)],
                             blockHash1 := hashInit\<rparr>
                  else state)
               in if wrap64 (blockSize state * 2) = 0 then Inl DivideByZero
                  else if rem64 rh (wrap64 (blockSize state * 2))
                          = wrap64 (wrap64 (blockSize state * 2) - 1) then
                    (if int (length (hashString2 state)) < spamSumLength div 2 - 1
                     then Inr (state\<lparr>hashString2 :=
                                    hashString2 state @ [b64 ! unat (blockHash2 state mod 64)],
                                  blockHash2 := hashInit\<rparr>)
                     else Inr state)
                  else Inr state
             else Inr state)"

section \<open>The byte source\<close>

text \<open>
  \<^verbatim>\<open>Reader\<close> is an interface: a table of methods over a source whose state, of type
  \<open>'r\<close>, is passed explicitly. \<open>Seek f offset whence\<close> is the effect of
  \<^verbatim>\<open>f.Seek(offset, whence)\<close> on the source; the caller below ignores what it returns.
  \<open>Drain f\<close> is what a fresh \<^verbatim>\<open>bufio.Reader\<close> over the source delivers through
  \<^verbatim>\<open>ReadByte\<close> up to its first error: the bytes, that error (\<^verbatim>\<open>io.EOF\<close> at the end
  of the data, anything else for a failure), and the source once all of them are read.
  The buffered reader hands the bytes on one at a time and reports the error when none
  is left. A source that delivers bytes for ever is outside this model.
\<close>

record 'r Reader =
  Seek :: "int \<Rightarrow> int \<Rightarrow> 'r \<Rightarrow> 'r"
  Drain :: "'r \<Rightarrow> (u8 list \<times> go_error) \<times> 'r"

record bufio_Reader =
  buf :: "u8 list"
  err :: go_error

definition bufio_NewReader :: "'r Reader \<Rightarrow> 'r \<Rightarrow> bufio_Reader \<times> 'r" where
  "bufio_NewReader f src =
     (case Drain f src of ((bytes, e), src') \<Rightarrow> (\<lparr>buf = bytes, err = e\<rparr>, src'))"

definition ReadByte :: "bufio_Reader \<Rightarrow> u8 \<times> go_error option \<times> bufio_Reader" where
  "ReadByte r =
     (case buf r of
        [] \<Rightarrow> (0, Some (err r), r)
      | c # cs \<Rightarrow> (c, None, r\<lparr>buf := cs\<rparr>))"

section \<open>One pass\<close>

text \<open>The \<^verbatim>\<open>for err == nil\<close> loop of \<^verbatim>\<open>process\<close>, entered with the result of the
  first \<^verbatim>\<open>ReadByte\<close>. The error that ends the loop is dropped, whatever it is.\<close>

function process_loop ::
  "u8 \<Rightarrow> go_error option \<Rightarrow> bufio_Reader \<Rightarrow> ssdeepState \<Rightarrow> panic + ssdeepState" where
  "process_loop b e r state =
     (if e = None then
        (case processByte b state of
           Inl p \<Rightarrow> Inl p
         | Inr state' \<Rightarrow>
             (case ReadByte r of (b', e', r') \<Rightarrow> process_loop b' e' r' state'))
      else Inr state)"
  by pat_completeness auto
termination
  by (relation "measure (\<lambda>(b, e, r, state). 2 * length (buf r) + (if e = None then 1 else 0))")
     (auto simp: ReadByte_def split: list.splits)

definition process :: "bufio_Reader \<Rightarrow> ssdeepState \<Rightarrow> panic + ssdeepState" where
  "process r state =
     (let state = newRollingState state in
      case ReadByte r of (b, e, r') \<Rightarrow> process_loop b e r' state)"

text \<open>The bytes of a pass, fed one after the other: what the loop of \<^verbatim>\<open>process\<close> does
  to the state once the reader is unfolded into the bytes it holds.\<close>

fun processBytes :: "u8 list \<Rightarrow> ssdeepState \<Rightarrow> panic + ssdeepState" where
  "processBytes [] state = Inr state"
| "processBytes (b # bs) state =
     (case processByte b state of Inl p \<Rightarrow> Inl p | Inr state' \<Rightarrow> processBytes bs state')"

section \<open>A pass keeps the block size\<close>

declare process_loop.simps [simp del]

lemma rollHash_frame:
  assumes "rollHash c state = Inr state'"
  shows "blockSize state' = blockSize state \<and> hashString1 state' = hashString1 state
       \<and> hashString2 state' = hashString2 state \<and> blockHash1 state' = blockHash1 state
       \<and> blockHash2 state' = blockHash2 state"
  using assms by (auto simp: rollHash_def Let_def split: if_splits)

lemma processByte_blockSize:
  assumes "processByte b state = Inr state'"
  shows "blockSize state' = blockSize state"
  using assms
  by (auto simp: processByte_def Let_def split: sum.splits if_splits dest!: rollHash_frame)

lemma process_loop_processBytes:
  "process_loop b e r state =
     (case e of Some x \<Rightarrow> Inr state | None \<Rightarrow> processBytes (b # buf r) state)"
proof (induction b e r state rule: process_loop.induct)
  case (1 b e r state)
  show ?case
  proof (cases e)
    case (Some x)
    then show ?thesis by (subst process_loop.simps) simp
  next
    case None
    show ?thesis
    proof (cases "processByte b state")
      case (Inl p)
      with None show ?thesis by (subst process_loop.simps) simp
    next
      case (Inr st1)
      obtain b' e' r' where rb: "ReadByte r = (b', e', r')"
        by (cases "ReadByte r") auto
      have step: "process_loop b' e' r' st1 =
          (case e' of Some x \<Rightarrow> Inr st1 | None \<Rightarrow> processBytes (b' # buf r') st1)"
        using "1.IH" [OF None Inr rb [symmetric] refl] .
      show ?thesis
        by (subst process_loop.simps)
           (use None Inr rb step in \<open>auto simp: ReadByte_def split: list.splits sum.splits\<close>)
    qed
  qed
qed

lemma process_processBytes:
  "process r state = processBytes (buf r) (newRollingState state)"
  by (cases "buf r")
     (simp_all add: process_def Let_def ReadByte_def process_loop_processBytes
        split: sum.splits)

lemma processBytes_blockSize:
  "processBytes bs state = Inr state' \<Longrightarrow> blockSize state' = blockSize state"
proof (induction bs arbitrary: state)
  case Nil
  then show ?case by simp
next
  case (Cons b bs)
  then show ?case
    by (auto split: sum.splits dest!: processByte_blockSize)
qed

lemma process_blockSize:
  "process r state = Inr state' \<Longrightarrow> blockSize state' = blockSize state"
  by (auto simp: process_processBytes newRollingState_def dest!: processBytes_blockSize)

section \<open>The digest\<close>

text \<open>\<^verbatim>\<open>fmt.Sprintf("%d:%s:%s", ...)\<close>: the block size in decimal, with a minus sign when
  negative, and the two strings, separated by colons.\<close>

fun decimal :: "nat \<Rightarrow> string" where
  "decimal m =
     (if m < 10 then [''0123456789'' ! m]
      else decimal (m div 10) @ [''0123456789'' ! (m mod 10)])"

declare decimal.simps [simp del]

definition FormatInt :: "int \<Rightarrow> string" where
  "FormatInt x = (if x < 0 then CHR ''-'' # decimal (nat (- x)) else decimal (nat x))"

definition Sprintf_digest :: "int \<Rightarrow> string \<Rightarrow> string \<Rightarrow> string" where
  "Sprintf_digest bs s1 s2 = FormatInt bs @ '':'' @ s1 @ '':'' @ s2"

text \<open>
  What one call of \<^verbatim>\<open>FuzzyReader\<close> leaves behind: \<open>answer\<close> is the returned pair
  \<^verbatim>\<open>(string, error)\<close>, or the panic that ended the call; \<open>source\<close> is the byte source
  afterwards; \<open>passes\<close> lists, in order, the block size with which each scanning pass
  was run. The list is an observation of the run and is never read by the algorithm.
\<close>

record 'r run =
  answer :: "panic + string \<times> go_error option"
  source :: 'r
  passes :: "int list"

text \<open>The \<^verbatim>\<open>for\<close> loop of \<^verbatim>\<open>FuzzyReader\<close>, one iteration per scanning pass.\<close>

function FuzzyReader_loop :: "'r Reader \<Rightarrow> 'r \<Rightarrow> ssdeepState \<Rightarrow> int list \<Rightarrow> 'r run" where
  "FuzzyReader_loop f src state tr =
     (let src1 = Seek f 0 0 src;
          tr1 = tr @ [blockSize state]
      in case bufio_NewReader f src1 of (r, src2) \<Rightarrow>
         (case process r state of
            Inl p \<Rightarrow> \<lparr>answer = Inl p, source = src2, passes = tr1\<rparr>
          | Inr state1 \<Rightarrow>
              if blockSize state1 < blockMin then
                \<lparr>answer = Inr ([], Some ErrSmallBlock), source = src2, passes = tr1\<rparr>
              else if int (length (hashString1 state1)) < spamSumLength div 2 then
                FuzzyReader_loop f src2
                  (state1\<lparr>blockSize := quot64 (blockSize state1) 2,
                          blockHash1 := hashInit, blockHash2 := hashInit,
                          hashString1 := [], hashString2 := []\<rparr>) tr1
              else
                let rh = rollSum (rollingState state1);
                    state2 =
                      (if rh \<noteq> 0
                       then state1\<lparr>hashString1 :=
                                     hashString1 state1 @ [b64 ! unat (blockHash1 state1 mod 64)],
                                   hashString2 :=
                                     hashString2 state1 @ [b64 ! unat (blockHash2 state1 mod 64)]\<rparr>
                       else state1)
                in \<lparr>answer = Inr (Sprintf_digest (blockSize state2) (hashString1 state2)
                                     (hashString2 state2), None),
                    source = src2, passes = tr1\<rparr>))"
  by pat_completeness auto
termination
proof (relation "measure (\<lambda>(f, src, state, tr). nat (blockSize state))")
  show "wf (measure (\<lambda>(f, src, state, tr). nat (blockSize state)))" by simp
next
  fix f :: "'r Reader" and src :: 'r and state :: ssdeepState and tr :: "int list"
  fix src1 tr1 x r src2 state1
  assume p: "process r state = Inr state1" and ge: "\<not> blockSize state1 < blockMin"
  have eq: "blockSize state1 = blockSize state" by (rule process_blockSize [OF p])
  from ge eq have three: "3 \<le> blockSize state" by (simp add: blockMin_def)
  have "(blockSize state div 2 + 2 ^ 63) mod 2 ^ 64 \<le> blockSize state div 2 + 2 ^ 63"
    using three by (intro zmod_le_nonneg_dividend) simp
  then have "quot64 (blockSize state) 2 \<le> blockSize state div 2"
    using three by (simp add: quot64_def wrap64_def sgn_if)
  with three have "nat (quot64 (blockSize state) 2) < nat (blockSize state)" by simp
  with eq show "((f, src2,
          state1\<lparr>blockSize := quot64 (blockSize state1) 2, blockHash1 := hashInit,
                  blockHash2 := hashInit, hashString1 := [], hashString2 := []\<rparr>, tr1),
         (f, src, state, tr)) \<in> measure (\<lambda>(f, src, state, tr). nat (blockSize state))"
    by simp
qed

declare FuzzyReader_loop.simps [simp del]

text \<open>\<^verbatim>\<open>FuzzyReader\<close>: \<open>None\<close> when the call never returns, which only the loop of
  \<^verbatim>\<open>getBlockSize\<close> can cause.\<close>

definition FuzzyReader :: "'r Reader \<Rightarrow> 'r \<Rightarrow> int \<Rightarrow> 'r run option" where
  "FuzzyReader f src sz =
     (if sz < minFileSize then
        Some \<lparr>answer = Inr ([], Some ErrSmallInput), source = src, passes = []\<rparr>
      else
        case getBlockSize sz newSsdeepState of
          None \<Rightarrow> None
        | Some state \<Rightarrow> Some (FuzzyReader_loop f src state []))"

section \<open>The in-memory source\<close>

text \<open>
  \<^verbatim>\<open>bytes.Reader\<close> of the standard library: the bytes and the read position.
  \<^verbatim>\<open>Seek\<close> moves the position (whence 0, 1 and 2 count from the start, the position
  and the end) and leaves it alone on an error; reading delivers the bytes from the
  position on and then \<^verbatim>\<open>io.EOF\<close>.
\<close>

record bytes_Reader =
  data :: "u8 list"
  pos :: int

definition bytes_NewReader :: "u8 list \<Rightarrow> bytes_Reader" where
  "bytes_NewReader b = \<lparr>data = b, pos = 0\<rparr>"

definition bytes_Seek :: "int \<Rightarrow> int \<Rightarrow> bytes_Reader \<Rightarrow> bytes_Reader" where
  "bytes_Seek offset whence r =
     (let abs =
        (if whence = 0 then Some offset
         else if whence = 1 then Some (pos r + offset)
         else if whence = 2 then Some (int (length (data r)) + offset)
         else None)
      in case abs of
           None \<Rightarrow> r
         | Some a \<Rightarrow> if a < 0 then r else r\<lparr>pos := a\<rparr>)"

definition bytes_Drain :: "bytes_Reader \<Rightarrow> (u8 list \<times> go_error) \<times> bytes_Reader" where
  "bytes_Drain r =
     ((drop (nat (pos r)) (data r), EOF),
      (if pos r < int (length (data r)) then r\<lparr>pos := int (length (data r))\<rparr> else r))"

definition bytes_Reader :: "bytes_Reader Reader" where
  "bytes_Reader = \<lparr>Seek = bytes_Seek, Drain = bytes_Drain\<rparr>"

text \<open>\<^verbatim>\<open>FuzzyBytes\<close>. A slice is shorter than \<open>2 ^ 63\<close>, so its length converts to
  \<^verbatim>\<open>int64\<close> unchanged.\<close>

definition FuzzyBytes :: "u8 list \<Rightarrow> (panic + string \<times> go_error option) option" where
  "FuzzyBytes buffer =
     (let len = int (length buffer);
          br = bytes_NewReader buffer
      in case FuzzyReader bytes_Reader br len of
           None \<Rightarrow> None
         | Some out \<Rightarrow>
             (case answer out of
                Inl p \<Rightarrow> Some (Inl p)
              | Inr (res, e) \<Rightarrow>
                  if e \<noteq> None then Some (Inr ([], e)) else Some (Inr (res, None))))"

section \<open>Auxiliary notions\<close>

text \<open>Consecutive calls of \<^verbatim>\<open>rollHash\<close>, one per pushed byte.\<close>

fun rollHashes :: "u8 list \<Rightarrow> ssdeepState \<Rightarrow> panic + ssdeepState" where
  "rollHashes [] state = Inr state"
| "rollHashes (c # cs) state =
     (case rollHash c state of Inl p \<Rightarrow> Inl p | Inr state' \<Rightarrow> rollHashes cs state')"

text \<open>The two ways a pass ends inside the loop of \<^verbatim>\<open>FuzzyReader\<close>: \<open>restart\<close> is the
  state with which the next pass begins after a shrink, \<open>finish\<close> the digest of an
  accepted pass.\<close>

definition restart :: "ssdeepState \<Rightarrow> ssdeepState" where
  "restart state1 =
     state1\<lparr>blockSize := quot64 (blockSize state1) 2, blockHash1 := hashInit,
            blockHash2 := hashInit, hashString1 := [], hashString2 := []\<rparr>"

definition finish :: "ssdeepState \<Rightarrow> string" where
  "finish state1 =
     (if rollSum (rollingState state1) \<noteq> 0
      then Sprintf_digest (blockSize state1)
             (hashString1 state1 @ [b64 ! unat (blockHash1 state1 mod 64)])
             (hashString2 state1 @ [b64 ! unat (blockHash2 state1 mod 64)])
      else Sprintf_digest (blockSize state1) (hashString1 state1) (hashString2 state1))"

text \<open>The block sizes \<open>3 * 2 ^ j\<close>, ..., 6, 3 and 1, in the order of the shrink loop.\<close>

fun halvings :: "nat \<Rightarrow> int list" where
  "halvings 0 = [3, 1]"
| "halvings (Suc j) = 3 * 2 ^ Suc j # halvings j"

text \<open>What the two strings satisfy all along a pass that starts with both empty.\<close>

definition strings_ok :: "ssdeepState \<Rightarrow> bool" where
  "strings_ok state \<longleftrightarrow>
     length (hashString1 state) \<le> 63 \<and> length (hashString2 state) \<le> 31
     \<and> length (hashString2 state) \<le> length (hashString1 state)
     \<and> set (hashString1 state) \<subseteq> set b64String \<and> set (hashString2 state) \<subseteq> set b64String"

section \<open>The loop of FuzzyReader, unfolded\<close>

lemma FuzzyReader_loop_unfold:
  fixes f :: "'r Reader"
  shows "FuzzyReader_loop f src state tr =
     (case Drain f (Seek f 0 0 src) of ((bytes, e), src2) \<Rightarrow>
        (case processBytes bytes (newRollingState state) of
           Inl p \<Rightarrow> \<lparr>answer = Inl p, source = src2, passes = tr @ [blockSize state]\<rparr>
         | Inr state1 \<Rightarrow>
             if blockSize state < 3 then
               \<lparr>answer = Inr ([], Some ErrSmallBlock), source = src2,
                passes = tr @ [blockSize state]\<rparr>
             else if length (hashString1 state1) < 32 then
               FuzzyReader_loop f src2 (restart state1) (tr @ [blockSize state])
             else
               \<lparr>answer = Inr (finish state1, None), source = src2,
                passes = tr @ [blockSize state]\<rparr>))"
  by (subst FuzzyReader_loop.simps)
     (auto simp: Let_def bufio_NewReader_def process_processBytes restart_def finish_def
        blockMin_def spamSumLength_def newRollingState_def
        split: prod.splits sum.splits dest: processBytes_blockSize)

lemma FuzzyReader_loop_induct [case_names pass]:
  fixes P :: "'r Reader \<Rightarrow> 'r \<Rightarrow> ssdeepState \<Rightarrow> int list \<Rightarrow> bool"
  assumes step: "\<And>f src state tr.
    (\<And>bytes e src2 state1.
        Drain f (Seek f 0 0 src) = ((bytes, e), src2) \<Longrightarrow>
        processBytes bytes (newRollingState state) = Inr state1 \<Longrightarrow>
        3 \<le> blockSize state \<Longrightarrow> length (hashString1 state1) < 32 \<Longrightarrow>
        P f src2 (restart state1) (tr @ [blockSize state])) \<Longrightarrow>
    P f src state tr"
  shows "P f src state tr"
proof (induction f src state tr rule: FuzzyReader_loop.induct)
  case (1 f src state tr)
  show ?case
  proof (rule step)
    fix bytes e src2 state1
    assume d: "Drain f (Seek f 0 0 src) = ((bytes, e), src2)"
      and p: "processBytes bytes (newRollingState state) = Inr state1"
      and b: "3 \<le> blockSize state" and l: "length (hashString1 state1) < 32"
    have nr: "(\<lparr>buf = bytes, err = e\<rparr>, src2) = bufio_NewReader f (Seek f 0 0 src)"
      by (simp add: bufio_NewReader_def d)
    have pr: "process \<lparr>buf = bytes, err = e\<rparr> state = Inr state1"
      by (simp add: process_processBytes p)
    have bs: "blockSize state1 = blockSize state"
      using processBytes_blockSize [OF p] by (simp add: newRollingState_def)
    show "P f src2 (restart state1) (tr @ [blockSize state])"
      using "1.IH" [OF refl refl nr pr] b l bs
      by (simp add: restart_def blockMin_def spamSumLength_def)
  qed
qed

lemma FuzzyReader_loop_answer:
  fixes f :: "'r Reader"
  shows "answer (FuzzyReader_loop f src state tr) = Inr (d, Some e) \<Longrightarrow>
    e = ErrSmallBlock \<and> d = []"
proof (induction f src state tr rule: FuzzyReader_loop_induct)
  case (pass f src state tr)
  from pass.prems show ?case
    by (subst (asm) FuzzyReader_loop_unfold)
       (auto split: prod.splits sum.splits if_splits dest: pass.IH)
qed

section \<open>The rolling window\<close>

lemma unat_ucast_u8 [simp]: "unat (ucast w :: u32) = unat (w :: u8)"
proof -
  have "unat w < 2 ^ 8" using unsigned_less [of w, where 'a = nat] by simp
  then have "unat w < 2 ^ 32" by simp
  then show ?thesis by (simp add: unsigned_ucast_eq take_bit_nat_eq_self)
qed

lemma unat_sum_ucast:
  "unat (sum_list (map ucast ws) :: u32) = sum_list (map unat (ws :: u8 list)) mod 2 ^ 32"
proof (induction ws)
  case Nil
  show ?case by simp
next
  case (Cons w ws)
  then show ?case
    by (simp add: unat_word_ariths mod_add_right_eq)
qed

lemma sum_ucast_update:
  "k < length ws \<Longrightarrow>
   (sum_list (map ucast (ws[k := c])) :: u32) = sum_list (map ucast ws) + ucast c - ucast (ws ! k)"
  for ws :: "u8 list"
proof (induction ws arbitrary: k)
  case Nil
  then show ?case by simp
next
  case (Cons w ws)
  then show ?case by (cases k) simp_all
qed

lemma rollHash_Inr:
  assumes "unat (n (rollingState state)) < length (window (rollingState state))"
  shows "rollHash c state =
    Inr (state\<lparr>rollingState :=
      \<lparr>window = (window (rollingState state))[unat (n (rollingState state)) := c],
       h1 = h1 (rollingState state) + ucast c
            - ucast (window (rollingState state) ! unat (n (rollingState state))),
       h2 = h2 (rollingState state) - h1 (rollingState state) + 7 * ucast c,
       h3 = push_bit 5 (h3 (rollingState state)) XOR ucast c,
       n = (if n (rollingState state) + 1 = 7 then 0 else n (rollingState state) + 1)\<rparr>\<rparr>)"
  using assms by (simp add: rollHash_def Let_def rollingWindow_def)

lemma next_index:
  assumes "unat (k :: u32) < 7"
  shows "unat (if k + 1 = 7 then 0 else k + 1) < 7"
proof -
  have a: "unat (k + 1) = unat k + 1" using assms by (simp add: unat_word_ariths)
  have "k + 1 \<noteq> 7 \<Longrightarrow> unat (k + 1) \<noteq> 7" by (simp add: word_unat_eq_iff)
  with a assms show ?thesis by auto
qed

lemma rollHash_window_sum:
  assumes len: "length (window (rollingState state)) = 7"
    and k: "unat (n (rollingState state)) < 7"
    and s: "unat (h1 (rollingState state))
            = sum_list (map unat (window (rollingState state))) mod 2 ^ 32"
  shows "\<exists>state'. rollHash c state = Inr state'
    \<and> length (window (rollingState state')) = 7 \<and> unat (n (rollingState state')) < 7
    \<and> unat (h1 (rollingState state'))
        = sum_list (map unat (window (rollingState state'))) mod 2 ^ 32"
proof -
  let ?rs = "rollingState state"
  from s have w: "h1 ?rs = sum_list (map ucast (window ?rs))"
    by (simp add: word_unat_eq_iff unat_sum_ucast)
  from k len have k2: "unat (n ?rs) < length (window ?rs)" by simp
  have "unat (h1 ?rs + ucast c - ucast (window ?rs ! unat (n ?rs)))
        = sum_list (map unat ((window ?rs)[unat (n ?rs) := c])) mod 2 ^ 32"
    unfolding w sum_ucast_update [OF k2, symmetric] by (rule unat_sum_ucast)
  with len next_index [OF k] show ?thesis
    unfolding rollHash_Inr [OF k2] by (simp del: One_nat_def)
qed

lemma rollHashes_window_sum:
  assumes "length (window (rollingState state)) = 7"
    and "unat (n (rollingState state)) < 7"
    and "unat (h1 (rollingState state))
            = sum_list (map unat (window (rollingState state))) mod 2 ^ 32"
  shows "\<exists>state'. rollHashes cs state = Inr state'
    \<and> length (window (rollingState state')) = 7 \<and> unat (n (rollingState state')) < 7
    \<and> unat (h1 (rollingState state'))
        = sum_list (map unat (window (rollingState state'))) mod 2 ^ 32"
  using assms
proof (induction cs arbitrary: state)
  case Nil
  then show ?case by simp
next
  case (Cons c cs)
  from rollHash_window_sum [OF Cons.prems, of c] obtain st1 where
    r: "rollHash c state = Inr st1"
    and i: "length (window (rollingState st1)) = 7" "unat (n (rollingState st1)) < 7"
      "unat (h1 (rollingState st1)) = sum_list (map unat (window (rollingState st1))) mod 2 ^ 32"
    by blast
  from Cons.IH [OF i] r show ?case by simp
qed

text \<open>
  C5. Between pushes, \<open>h1\<close> is the sum modulo \<open>2 ^ 32\<close> of the 7 bytes in the window:
  this holds for the all-zero window with which a pass starts, one call of
  \<^verbatim>\<open>rollHash\<close> never panics on such a state and keeps it, and so it holds after any
  sequence of pushes from the start of a pass.
\<close>

theorem rollHash_h1_is_window_sum:
  "(let rs = rollingState (newRollingState state0) in
      length (window rs) = 7 \<and> unat (n rs) < 7
      \<and> unat (h1 rs) = sum_list (map unat (window rs)) mod 2 ^ 32)
   \<and> (length (window (rollingState state)) = 7 \<and> unat (n (rollingState state)) < 7
        \<and> unat (h1 (rollingState state))
            = sum_list (map unat (window (rollingState state))) mod 2 ^ 32
      \<longrightarrow> (\<exists>state'. rollHash c state = Inr state'
            \<and> length (window (rollingState state')) = 7 \<and> unat (n (rollingState state')) < 7
            \<and> unat (h1 (rollingState state'))
                = sum_list (map unat (window (rollingState state'))) mod 2 ^ 32))
   \<and> (\<exists>state'. rollHashes cs (newRollingState state0) = Inr state'
        \<and> length (window (rollingState state')) = 7
        \<and> unat (h1 (rollingState state'))
            = sum_list (map unat (window (rollingState state'))) mod 2 ^ 32)"
proof -
  have init: "length (window (rollingState (newRollingState state0))) = 7"
    "unat (n (rollingState (newRollingState state0))) < 7"
    "unat (h1 (rollingState (newRollingState state0)))
       = sum_list (map unat (window (rollingState (newRollingState state0)))) mod 2 ^ 32"
    by (simp_all add: newRollingState_def rollingWindow_def sum_list_replicate)
  from rollHashes_window_sum [OF init, of cs] have all: "\<exists>state'.
      rollHashes cs (newRollingState state0) = Inr state'
      \<and> length (window (rollingState state')) = 7
      \<and> unat (h1 (rollingState state'))
          = sum_list (map unat (window (rollingState state'))) mod 2 ^ 32"
    by blast
  show ?thesis
    using init all rollHash_window_sum [of state c] by (simp add: Let_def)
qed

theorem rollHash_h1_is_window_sum_witness:
  "(\<exists>state'. rollHash 65 (newRollingState newSsdeepState) = Inr state'
      \<and> length (window (rollingState state')) = 7 \<and> unat (n (rollingState state')) < 7
      \<and> unat (h1 (rollingState state')) = 65
      \<and> sum_list (map unat (window (rollingState state'))) mod 2 ^ 32 = 65)
   \<and> (\<exists>state'. rollHashes [200, 100, 50, 250, 255, 255, 255, 255, 1]
                  (newRollingState newSsdeepState) = Inr state'
        \<and> length (window (rollingState state')) = 7
        \<and> unat (h1 (rollingState state'))
            = sum_list (map unat (window (rollingState state'))) mod 2 ^ 32)"
  using rollHash_h1_is_window_sum
    [of newSsdeepState "newRollingState newSsdeepState" 65
        "[200, 100, 50, 250, 255, 255, 255, 255, 1]"]
  by (simp add: Let_def newRollingState_def newSsdeepState_def rollingWindow_def
        rollHash_def)

section \<open>Where block size selection returns\<close>

lemma wrap64_id:
  "- 9223372036854775808 \<le> x \<Longrightarrow> x < 9223372036854775808 \<Longrightarrow> wrap64 x = x"
  by (simp add: wrap64_def)

lemma blockSize_bounds:
  assumes "k \<le> 55"
  shows "(0::int) < 3 * 2 ^ k" and "(3::int) * 2 ^ k * 64 \<le> 3 * 2 ^ 61"
    and "wrap64 (3 * 2 ^ k * 64) = 3 * 2 ^ k * 64"
    and "wrap64 (3 * 2 ^ k * 2) = 3 * 2 ^ Suc k"
proof -
  define B :: int where "B = 2 ^ k"
  have B0: "0 < B" by (simp add: B_def)
  have "(2::int) ^ k \<le> 2 ^ 55" using assms by (intro power_increasing) simp_all
  then have B1: "B \<le> 36028797018963968" by (simp add: B_def)
  show "(0::int) < 3 * 2 ^ k" by simp
  have a: "3 * B * 64 \<le> 6917529027641081856" using B1 by linarith
  then show "(3::int) * 2 ^ k * 64 \<le> 3 * 2 ^ 61" by (simp add: B_def)
  have "wrap64 (3 * B * 64) = 3 * B * 64"
    by (rule wrap64_id) (use a B0 in linarith)+
  then show "wrap64 (3 * 2 ^ k * 64) = 3 * 2 ^ k * 64" by (simp only: B_def)
  have "wrap64 (3 * B * 2) = 3 * B * 2"
    by (rule wrap64_id) (use a B0 in linarith)+
  then show "wrap64 (3 * 2 ^ k * 2) = 3 * 2 ^ Suc k" by (simp add: B_def mult.commute)
qed

lemma getBlockSize_loop_in_range:
  assumes "len \<le> 3 * 2 ^ 61" and "k \<le> 55"
  shows "\<exists>j. k \<le> j \<and> j \<le> 55 \<and> getBlockSize_loop (3 * 2 ^ k) len = Some (3 * 2 ^ j)
            \<and> len \<le> 3 * 2 ^ j * 64 \<and> (\<forall>i. k \<le> i \<and> i < j \<longrightarrow> 3 * 2 ^ i * 64 < len)"
  using assms
proof (induction m \<equiv> "55 - k" arbitrary: k)
  case 0
  then have k: "k = 55" by simp
  note bb = blockSize_bounds [OF \<open>k \<le> 55\<close>]
  have "(3::int) * 2 ^ k * 64 = 3 * 2 ^ 61" unfolding k by simp
  with 0(2) have "\<not> wrap64 (3 * 2 ^ k * 64) < len" unfolding bb(3) by linarith
  then have "getBlockSize_loop (3 * 2 ^ k) len = Some (3 * 2 ^ k)"
    by (subst getBlockSize_loop.simps) (simp only: spamSumLength_def if_False)
  moreover from \<open>\<not> wrap64 (3 * 2 ^ k * 64) < len\<close> have "len \<le> 3 * 2 ^ k * 64"
    unfolding bb(3) by linarith
  ultimately show ?case using k by (intro exI [of _ k]) simp
next
  case (Suc m)
  then have k: "k < 55" by simp
  note bb = blockSize_bounds [OF \<open>k \<le> 55\<close>]
  show ?case
  proof (cases "wrap64 (3 * 2 ^ k * 64) < len")
    case False
    then have "getBlockSize_loop (3 * 2 ^ k) len = Some (3 * 2 ^ k)"
      by (subst getBlockSize_loop.simps) (simp only: spamSumLength_def if_False)
    moreover from False have "len \<le> 3 * 2 ^ k * 64" unfolding bb(3) by linarith
    ultimately show ?thesis using Suc.prems by (intro exI [of _ k]) simp
  next
    case True
    have m: "m = 55 - Suc k" using Suc.hyps(2) by simp
    have sk: "Suc k \<le> 55" using k by simp
    from Suc.hyps(1) [OF m Suc.prems(1) sk] obtain j where
      j: "Suc k \<le> j" "j \<le> 55" "getBlockSize_loop (3 * 2 ^ Suc k) len = Some (3 * 2 ^ j)"
        "len \<le> 3 * 2 ^ j * 64" "\<forall>i. Suc k \<le> i \<and> i < j \<longrightarrow> 3 * 2 ^ i * 64 < len"
      by blast
    have "getBlockSize_loop (3 * 2 ^ k) len = getBlockSize_loop (3 * 2 ^ Suc k) len"
      by (subst getBlockSize_loop.simps) (simp only: spamSumLength_def True if_True bb(4))
    then have r: "getBlockSize_loop (3 * 2 ^ k) len = Some (3 * 2 ^ j)" using j(3) by simp
    from True have here: "3 * 2 ^ k * 64 < len" unfolding bb(3) .
    have "\<forall>i. k \<le> i \<and> i < j \<longrightarrow> 3 * 2 ^ i * 64 < len"
    proof (intro allI impI)
      fix i assume i: "k \<le> i \<and> i < j"
      show "3 * 2 ^ i * 64 < len"
      proof (cases "i = k")
        case True
        with here show ?thesis by simp
      next
        case False
        with i have "Suc k \<le> i \<and> i < j" by simp
        with j(5) show ?thesis by blast
      qed
    qed
    with r j(1,2,4) show ?thesis by (intro exI [of _ j]) simp
  qed
qed

lemma wrap64_cong: "a mod 2 ^ 64 = b mod 2 ^ 64 \<Longrightarrow> wrap64 a = wrap64 b"
proof -
  assume "a mod 2 ^ 64 = b mod 2 ^ 64"
  then have "(a + 2 ^ 63) mod 2 ^ 64 = (b + 2 ^ 63) mod 2 ^ 64"
    by (rule mod_add_cong) simp
  then show ?thesis by (simp only: wrap64_def)
qed

lemma wrap64_mod: "wrap64 a mod 2 ^ 64 = a mod 2 ^ 64"
proof -
  have "wrap64 a mod 2 ^ 64 = ((a + 2 ^ 63) mod 2 ^ 64 - 2 ^ 63 mod 2 ^ 64) mod 2 ^ 64"
    unfolding wrap64_def by (simp only: mod_diff_right_eq)
  also have "\<dots> = (a + 2 ^ 63 - 2 ^ 63) mod 2 ^ 64"
    by (simp only: mod_diff_eq)
  finally show ?thesis by simp
qed

lemma wrap64_mult: "wrap64 (wrap64 a * c) = wrap64 (a * c)"
  by (rule wrap64_cong) (metis wrap64_mod mod_mult_left_eq)

lemma wrap64_orbit_le: "wrap64 (3 * 2 ^ m) \<le> 3 * 2 ^ 61"
proof -
  consider "m \<le> 61" | "m = 62" | "m = 63" | "64 \<le> m" by linarith
  then show ?thesis
  proof cases
    case 1
    then have "(2::int) ^ m \<le> 2 ^ 61" by (intro power_increasing) simp_all
    then have le: "(3::int) * 2 ^ m \<le> 6917529027641081856" by simp
    have "(0::int) < 3 * 2 ^ m" by simp
    with le have "wrap64 (3 * 2 ^ m) = 3 * 2 ^ m" by (intro wrap64_id) linarith+
    with le show ?thesis by simp
  next
    case 2
    then show ?thesis by (simp add: wrap64_def)
  next
    case 3
    then show ?thesis by (simp add: wrap64_def)
  next
    case 4
    then obtain d where "m = 64 + d" using le_Suc_ex by blast
    then have "(3::int) * 2 ^ m = 2 ^ 64 * (3 * 2 ^ d)" by (simp add: power_add)
    then have "(3 * 2 ^ m) mod 2 ^ 64 = (0::int) mod 2 ^ 64" by simp
    then have "wrap64 (3 * 2 ^ m) = wrap64 0" by (rule wrap64_cong)
    then show ?thesis by (simp add: wrap64_def)
  qed
qed

lemma getBlockSize_loop_diverges_aux:
  assumes "getBlockSize_loop bs len = Some y"
  shows "\<not> (3 * 2 ^ 61 < len \<and> (\<exists>m. bs = wrap64 (3 * 2 ^ m)))"
proof (rule getBlockSize_loop.raw_induct
    [where P = "\<lambda>bs len y. \<not> (3 * 2 ^ 61 < len \<and> (\<exists>m. bs = wrap64 (3 * 2 ^ m)))",
     OF _ assms])
  fix loop :: "int \<Rightarrow> int \<Rightarrow> int option" and bs len y :: int
  assume IH: "\<And>bs len y. loop bs len = Some y \<Longrightarrow>
      \<not> (3 * 2 ^ 61 < len \<and> (\<exists>m. bs = wrap64 (3 * 2 ^ m)))"
    and body: "(if wrap64 (bs * spamSumLength) < len then loop (wrap64 (bs * 2)) len
               else Some bs) = Some y"
  show "\<not> (3 * 2 ^ 61 < len \<and> (\<exists>m. bs = wrap64 (3 * 2 ^ m)))"
  proof
    assume a: "3 * 2 ^ 61 < len \<and> (\<exists>m. bs = wrap64 (3 * 2 ^ m))"
    then obtain m where m: "bs = wrap64 (3 * 2 ^ m)" by blast
    have "wrap64 (bs * 64) = wrap64 (3 * 2 ^ (m + 6))"
      unfolding m wrap64_mult by (simp add: power_add)
    with wrap64_orbit_le [of "m + 6"] a have g: "wrap64 (bs * spamSumLength) < len"
      by (simp add: spamSumLength_def)
    have nxt: "wrap64 (bs * 2) = wrap64 (3 * 2 ^ Suc m)"
      unfolding m wrap64_mult by (simp add: mult.commute)
    from body g have "loop (wrap64 (bs * 2)) len = Some y" by simp
    from IH [OF this] a nxt show False by blast
  qed
qed

lemma getBlockSize_loop_diverges:
  assumes "3 * 2 ^ 61 < len"
  shows "getBlockSize_loop 3 len = None"
proof (cases "getBlockSize_loop 3 len")
  case None
  then show ?thesis .
next
  case (Some y)
  have "(3::int) = wrap64 (3 * 2 ^ 0)" by (simp add: wrap64_def)
  with getBlockSize_loop_diverges_aux [OF Some] assms show ?thesis by blast
qed

lemma getBlockSize_in_range:
  assumes "len \<le> 3 * 2 ^ 61"
  shows "\<exists>j\<le>55. getBlockSize len state = Some (state\<lparr>blockSize := 3 * 2 ^ j\<rparr>)
            \<and> len \<le> 3 * 2 ^ j * 64 \<and> (\<forall>i<j. 3 * 2 ^ i * 64 < len)"
proof -
  from getBlockSize_loop_in_range [OF assms, of 0] obtain j where
    j: "j \<le> 55" "getBlockSize_loop (3 * 2 ^ 0) len = Some (3 * 2 ^ j)"
       "len \<le> 3 * 2 ^ j * 64" "\<forall>i. 0 \<le> i \<and> i < j \<longrightarrow> 3 * 2 ^ i * 64 < len"
    by blast
  from j(2) have "getBlockSize len state = Some (state\<lparr>blockSize := 3 * 2 ^ j\<rparr>)"
    by (simp add: getBlockSize_def blockMin_def)
  with j(1,3,4) show ?thesis by (intro exI [of _ j]) simp
qed

lemma getBlockSize_Some:
  assumes "getBlockSize len state = Some state'"
  shows "len \<le> 3 * 2 ^ 61
    \<and> (\<exists>j\<le>55. state' = state\<lparr>blockSize := 3 * 2 ^ j\<rparr>
            \<and> len \<le> 3 * 2 ^ j * 64 \<and> (\<forall>i<j. 3 * 2 ^ i * 64 < len))"
proof (cases "len \<le> 3 * 2 ^ 61")
  case True
  with getBlockSize_in_range [OF True, of state] assms show ?thesis by auto
next
  case False
  then have "getBlockSize_loop 3 len = None" by (intro getBlockSize_loop_diverges) simp
  with assms show ?thesis by (simp add: getBlockSize_def blockMin_def)
qed

text \<open>
  C3. For a declared length above \<open>3 * 2 ^ 61\<close> the product \<^verbatim>\<open>blockSize*64\<close> overflows
  before it reaches the length: the loop of \<^verbatim>\<open>getBlockSize\<close> never exits, and no block
  size is selected. Here at the largest \<^verbatim>\<open>int64\<close>.
\<close>

theorem getBlockSize_max_int64_diverges:
  "getBlockSize 9223372036854775807 state = None"
proof -
  have "getBlockSize_loop 3 9223372036854775807 = None"
    by (rule getBlockSize_loop_diverges) simp
  then show ?thesis by (simp add: getBlockSize_def blockMin_def)
qed

section \<open>The entry guard\<close>

text \<open>
  C7. A declared length below 4096 is answered with \<^verbatim>\<open>ErrSmallInput\<close> at once: no pass
  is run and the source is handed back as it was, whatever its methods would do to it.
  From 4096 on, no call returns that error.
\<close>

theorem FuzzyReader_ErrSmallInput_iff:
  fixes f :: "'r Reader"
  shows "(sz < 4096 \<longrightarrow>
            FuzzyReader f src sz
            = Some \<lparr>answer = Inr ([], Some ErrSmallInput), source = src, passes = []\<rparr>)
       \<and> (4096 \<le> sz \<longrightarrow>
            (\<forall>out d. FuzzyReader f src sz = Some out
               \<longrightarrow> answer out \<noteq> Inr (d, Some ErrSmallInput)))"
  by (auto simp: FuzzyReader_def minFileSize_def split: option.splits
        dest: FuzzyReader_loop_answer)

lemma getBlockSize_4096: "getBlockSize 4096 state = Some (state\<lparr>blockSize := 96\<rparr>)"
  by (simp add: getBlockSize_def getBlockSize_loop.simps blockMin_def spamSumLength_def
        wrap64_def)

lemma quot64_small:
  "quot64 96 2 = 48" "quot64 48 2 = 24" "quot64 24 2 = 12" "quot64 12 2 = 6"
  "quot64 6 2 = 3" "quot64 3 2 = 1"
  by (simp_all add: quot64_def wrap64_def)

text \<open>A source that counts the calls of its methods, one for a seek and a hundred for a
  read, and holds no data.\<close>

lemma counting_source_run:
  "FuzzyReader \<lparr>Seek = (\<lambda>offset whence k. k + 1), Drain = (\<lambda>k. (([], EOF), k + 100))\<rparr>
     (0::nat) 4096
   = Some \<lparr>answer = Inr ([], Some ErrSmallBlock), source = 707,
           passes = [96, 48, 24, 12, 6, 3, 1]\<rparr>"
  by (simp add: FuzzyReader_def minFileSize_def getBlockSize_4096 FuzzyReader_loop_unfold
        newSsdeepState_def newRollingState_def restart_def quot64_small)

theorem FuzzyReader_ErrSmallInput_iff_witness:
  "FuzzyReader \<lparr>Seek = (\<lambda>offset whence k. k + 1), Drain = (\<lambda>k. (([], EOF), k + 100))\<rparr>
     (0::nat) 4095
   = Some \<lparr>answer = Inr ([], Some ErrSmallInput), source = 0, passes = []\<rparr>
   \<and> (\<exists>out. FuzzyReader \<lparr>Seek = (\<lambda>offset whence k. k + 1),
                            Drain = (\<lambda>k. (([], EOF), k + 100))\<rparr> (0::nat) 4096 = Some out
          \<and> (\<forall>d. answer out \<noteq> Inr (d, Some ErrSmallInput)))"
  using FuzzyReader_ErrSmallInput_iff
      [of 4095 "\<lparr>Seek = (\<lambda>offset whence k. k + 1), Drain = (\<lambda>k. (([], EOF), k + 100))\<rparr>"
          "0::nat"]
    FuzzyReader_ErrSmallInput_iff
      [of 4096 "\<lparr>Seek = (\<lambda>offset whence k. k + 1), Drain = (\<lambda>k. (([], EOF), k + 100))\<rparr>"
          "0::nat"]
    counting_source_run
  by simp

section \<open>Passes never panic\<close>

lemma processByte_no_panic:
  assumes len: "length (window (rollingState state)) = 7"
    and k: "unat (n (rollingState state)) < 7"
    and b0: "blockSize state \<noteq> 0" and b2: "wrap64 (blockSize state * 2) \<noteq> 0"
  shows "\<exists>state'. processByte b state = Inr state'
    \<and> length (window (rollingState state')) = 7 \<and> unat (n (rollingState state')) < 7"
proof -
  let ?s = "state\<lparr>blockHash1 := sumHash b (blockHash1 state),
                  blockHash2 := sumHash b (blockHash2 state)\<rparr>"
  have k2: "unat (n (rollingState ?s)) < length (window (rollingState ?s))"
    using len k by simp
  from next_index [OF k] len b0 b2 show ?thesis
    unfolding processByte_def Let_def
    by (auto simp: rollHash_Inr [OF k2] simp del: One_nat_def split: if_splits)
qed

lemma processBytes_no_panic:
  assumes "length (window (rollingState state)) = 7"
    and "unat (n (rollingState state)) < 7"
    and "blockSize state \<noteq> 0" and "wrap64 (blockSize state * 2) \<noteq> 0"
  shows "\<exists>state'. processBytes bs state = Inr state'"
  using assms
proof (induction bs arbitrary: state)
  case Nil
  then show ?case by simp
next
  case (Cons b bs)
  from processByte_no_panic [OF Cons.prems, of b] obtain st1 where
    st1: "processByte b state = Inr st1" "length (window (rollingState st1)) = 7"
      "unat (n (rollingState st1)) < 7"
    by blast
  from processByte_blockSize [OF st1(1)] Cons.prems
  have "blockSize st1 \<noteq> 0" "wrap64 (blockSize st1 * 2) \<noteq> 0" by simp_all
  from Cons.IH [OF st1(2,3) this] st1(1) show ?case by simp
qed

lemma pass_no_panic:
  assumes "blockSize state \<noteq> 0" and "wrap64 (blockSize state * 2) \<noteq> 0"
  shows "\<exists>state'. processBytes bs (newRollingState state) = Inr state'"
  by (rule processBytes_no_panic)
     (use assms in \<open>simp_all add: newRollingState_def rollingWindow_def\<close>)

section \<open>The schedule of passes\<close>

lemma length_halvings [simp]: "length (halvings j) = j + 2"
  by (induction j) simp_all

lemma set_halvings: "set (halvings j) = insert 1 ((\<lambda>i. 3 * 2 ^ i) ` {..j})"
proof (induction j)
  case 0
  show ?case by auto
next
  case (Suc j)
  have "{..Suc j} = insert (Suc j) {..j}" by auto
  with Suc show ?case by auto
qed

lemma quot64_3: "quot64 3 2 = 1"
  by (simp add: quot64_def wrap64_def)

lemma wrap64_blockSize:
  assumes "j \<le> 55"
  shows "wrap64 (3 * 2 ^ j) = 3 * 2 ^ j"
proof -
  define B :: int where "B = 2 ^ j"
  have B0: "0 < B" by (simp add: B_def)
  have "(2::int) ^ j \<le> 2 ^ 55" using assms by (intro power_increasing) simp_all
  then have B1: "B \<le> 36028797018963968" by (simp add: B_def)
  have "wrap64 (3 * B) = 3 * B"
    by (rule wrap64_id) (use B0 B1 in linarith)+
  then show ?thesis by (simp only: B_def)
qed

lemma quot64_Suc:
  assumes "j < 55"
  shows "quot64 (3 * 2 ^ Suc j) 2 = 3 * 2 ^ j"
proof -
  have "(0::int) < 3 * 2 ^ Suc j" by simp
  then have "quot64 (3 * 2 ^ Suc j) 2 = wrap64 (3 * 2 ^ j)"
    by (simp add: quot64_def sgn_if)
  with wrap64_blockSize [of j] assms show ?thesis by simp
qed

lemma three_le_blockSize: "(3::int) \<le> 3 * 2 ^ j"
proof -
  have "(1::int) \<le> 2 ^ j" by (rule one_le_power) simp
  then show ?thesis by linarith
qed

lemma wrap64_double_nonzero:
  assumes "j \<le> 55"
  shows "wrap64 (3 * 2 ^ j * 2) \<noteq> 0"
  using blockSize_bounds(4) [OF assms] by simp

lemma loop_at_1:
  fixes f :: "'r Reader"
  assumes "blockSize state = 1"
  shows "FuzzyReader_loop f src state tr =
    \<lparr>answer = Inr ([], Some ErrSmallBlock), source = snd (Drain f (Seek f 0 0 src)),
     passes = tr @ [1]\<rparr>"
proof -
  have "wrap64 (blockSize state * 2) \<noteq> 0" using assms by (simp add: wrap64_def)
  moreover obtain bytes e src2 where d: "Drain f (Seek f 0 0 src) = ((bytes, e), src2)"
    by (metis prod.exhaust)
  ultimately obtain st1 where "processBytes bytes (newRollingState state) = Inr st1"
    using assms pass_no_panic [of state bytes] by auto
  with assms d show ?thesis
    by (subst FuzzyReader_loop_unfold) simp
qed

lemma loop_schedule:
  fixes f :: "'r Reader"
  assumes "blockSize state = 3 * 2 ^ j" and "j \<le> 55"
  shows "\<exists>m d e. 1 \<le> m \<and> m \<le> j + 2
    \<and> passes (FuzzyReader_loop f src state tr) = tr @ take m (halvings j)
    \<and> answer (FuzzyReader_loop f src state tr) = Inr (d, e)
    \<and> (m = j + 2 \<longrightarrow> e = Some ErrSmallBlock) \<and> (m < j + 2 \<longrightarrow> e = None)"
  using assms
proof (induction j arbitrary: src state tr)
  case 0
  then have bs: "blockSize state = 3" by simp
  obtain bytes e src2 where d: "Drain f (Seek f 0 0 src) = ((bytes, e), src2)"
    by (metis prod.exhaust)
  from bs pass_no_panic [of state bytes] obtain st1 where
    p: "processBytes bytes (newRollingState state) = Inr st1"
    by (auto simp: wrap64_def)
  from processBytes_blockSize [OF p] bs have b1: "blockSize st1 = 3"
    by (simp add: newRollingState_def)
  show ?case
  proof (cases "length (hashString1 st1) < 32")
    case True
    have r: "blockSize (restart st1) = 1" by (simp add: restart_def b1 quot64_3)
    have "FuzzyReader_loop f src state tr = FuzzyReader_loop f src2 (restart st1) (tr @ [3])"
      by (subst FuzzyReader_loop_unfold) (simp add: d p bs True)
    then show ?thesis
      unfolding loop_at_1 [OF r] by (intro exI [of _ 2]) simp
  next
    case False
    have "FuzzyReader_loop f src state tr =
        \<lparr>answer = Inr (finish st1, None), source = src2, passes = tr @ [3]\<rparr>"
      by (subst FuzzyReader_loop_unfold) (simp add: d p bs False)
    then show ?thesis by (intro exI [of _ 1]) simp
  qed
next
  case (Suc j)
  let ?b = "3 * 2 ^ Suc j :: int"
  have bpos: "3 \<le> ?b" by (rule three_le_blockSize)
  obtain bytes e src2 where d: "Drain f (Seek f 0 0 src) = ((bytes, e), src2)"
    by (metis prod.exhaust)
  have "blockSize state \<noteq> 0" using Suc.prems(1) by simp
  moreover have "wrap64 (blockSize state * 2) \<noteq> 0"
    unfolding Suc.prems(1) by (rule wrap64_double_nonzero [OF Suc.prems(2)])
  ultimately obtain st1 where p: "processBytes bytes (newRollingState state) = Inr st1"
    using pass_no_panic [of state bytes] by blast
  from processBytes_blockSize [OF p] Suc.prems(1) have b1: "blockSize st1 = ?b"
    by (simp add: newRollingState_def)
  have nlt: "\<not> blockSize state < 3" using bpos Suc.prems(1) by simp
  show ?case
  proof (cases "length (hashString1 st1) < 32")
    case True
    have r: "blockSize (restart st1) = 3 * 2 ^ j"
      using quot64_Suc [of j] Suc.prems(2) by (simp add: restart_def b1)
    have "FuzzyReader_loop f src state tr
           = FuzzyReader_loop f src2 (restart st1) (tr @ [blockSize state])"
      by (subst FuzzyReader_loop_unfold) (simp add: d p nlt True)
    then have u: "FuzzyReader_loop f src state tr
           = FuzzyReader_loop f src2 (restart st1) (tr @ [?b])"
      by (simp only: Suc.prems(1))
    from Suc.IH [OF r, of src2 "tr @ [?b]"] Suc.prems(2) obtain m d' e' where
      m: "1 \<le> m" "m \<le> j + 2"
        "passes (FuzzyReader_loop f src2 (restart st1) (tr @ [?b])) = (tr @ [?b]) @ take m (halvings j)"
        "answer (FuzzyReader_loop f src2 (restart st1) (tr @ [?b])) = Inr (d', e')"
        "m = j + 2 \<longrightarrow> e' = Some ErrSmallBlock" "m < j + 2 \<longrightarrow> e' = None"
      by auto
    show ?thesis
      unfolding u using m by (intro exI [of _ "Suc m"] exI [of _ d'] exI [of _ e']) simp
  next
    case False
    have "FuzzyReader_loop f src state tr =
        \<lparr>answer = Inr (finish st1, None), source = src2, passes = tr @ [blockSize state]\<rparr>"
      by (subst FuzzyReader_loop_unfold) (simp add: d p nlt False)
    then show ?thesis by (intro exI [of _ 1]) (simp add: Suc.prems(1))
  qed
qed

section \<open>The two strings and the digest\<close>

lemma length_b64: "length b64 = 64"
  by (simp add: b64_def b64String_def)

lemma b64_index: "b64 ! unat (h mod 64 :: u32) \<in> set b64String"
proof -
  have "unat (h mod 64) < 64" by (simp add: unat_mod)
  then have "b64 ! unat (h mod 64) \<in> set b64" by (simp add: length_b64)
  then show ?thesis by (simp add: b64_def)
qed

lemma processByte_strings_ok:
  assumes "processByte b state = Inr state'" and "strings_ok state"
  shows "strings_ok state'"
  using assms b64_index
  by (auto simp: processByte_def Let_def strings_ok_def spamSumLength_def
        split: sum.splits if_splits dest!: rollHash_frame)

lemma processByte_fine_needs_coarse:
  assumes "processByte b state = Inr state'" and "hashString2 state' \<noteq> hashString2 state"
  shows "rem64 (uint (rollSum (rollingState state'))) (blockSize state) = wrap64 (blockSize state - 1)"
  using assms
  by (auto simp: processByte_def Let_def split: sum.splits if_splits dest!: rollHash_frame)

lemma processBytes_strings_ok:
  "processBytes bs state = Inr state' \<Longrightarrow> strings_ok state \<Longrightarrow> strings_ok state'"
proof (induction bs arbitrary: state)
  case Nil
  then show ?case by simp
next
  case (Cons b bs)
  then show ?case
    by (auto split: sum.splits dest: processByte_strings_ok)
qed

lemma FuzzyReader_loop_digest:
  fixes f :: "'r Reader"
  assumes "answer (FuzzyReader_loop f src state tr) = Inr (d, None)"
    and "hashString1 state = []" and "hashString2 state = []"
  shows "\<exists>state1. d = finish state1 \<and> strings_ok state1 \<and> 3 \<le> blockSize state1
    \<and> 32 \<le> length (hashString1 state1)
    \<and> passes (FuzzyReader_loop f src state tr) \<noteq> []
    \<and> last (passes (FuzzyReader_loop f src state tr)) = blockSize state1"
  using assms
proof (induction f src state tr rule: FuzzyReader_loop_induct)
  case (pass f src state tr)
  obtain bytes e src2 where d: "Drain f (Seek f 0 0 src) = ((bytes, e), src2)"
    by (metis prod.exhaust)
  have ok0: "strings_ok (newRollingState state)"
    using pass.prems(2,3) by (simp add: strings_ok_def newRollingState_def)
  show ?case
  proof (cases "processBytes bytes (newRollingState state)")
    case (Inl p)
    with pass.prems(1) d show ?thesis
      by (subst (asm) FuzzyReader_loop_unfold) simp
  next
    case (Inr st1)
    have ok1: "strings_ok st1" by (rule processBytes_strings_ok [OF Inr ok0])
    have b1: "blockSize st1 = blockSize state"
      using processBytes_blockSize [OF Inr] by (simp add: newRollingState_def)
    show ?thesis
    proof (cases "blockSize state < 3")
      case True
      with pass.prems(1) d Inr show ?thesis
        by (subst (asm) FuzzyReader_loop_unfold) simp
    next
      case False
      show ?thesis
      proof (cases "length (hashString1 st1) < 32")
        case True
        have u: "FuzzyReader_loop f src state tr
            = FuzzyReader_loop f src2 (restart st1) (tr @ [blockSize state])"
          by (subst FuzzyReader_loop_unfold) (simp add: d Inr False True)
        have "hashString1 (restart st1) = []" "hashString2 (restart st1) = []"
          by (simp_all add: restart_def)
        from pass.IH [OF d Inr _ True _ this] False pass.prems(1) show ?thesis
          unfolding u by simp
      next
        case nt: False
        have u: "FuzzyReader_loop f src state tr
            = \<lparr>answer = Inr (finish st1, None), source = src2, passes = tr @ [blockSize state]\<rparr>"
          by (subst FuzzyReader_loop_unfold) (simp add: d Inr False nt)
        from pass.prems(1) have "d = finish st1" unfolding u by simp
        with ok1 b1 False nt show ?thesis unfolding u by (intro exI [of _ st1]) simp
      qed
    qed
  qed
qed

lemma decimal_digits: "decimal m \<noteq> [] \<and> set (decimal m) \<subseteq> set ''0123456789''"
proof (induction m rule: decimal.induct)
  case (1 m)
  show ?case
  proof (cases "m < 10")
    case True
    then have "''0123456789'' ! m \<in> set ''0123456789''" by (intro nth_mem) simp
    with True show ?thesis by (subst (1 2) decimal.simps) simp
  next
    case False
    have "''0123456789'' ! (m mod 10) \<in> set ''0123456789''" by (intro nth_mem) simp
    with False 1 show ?thesis by (subst (1 2) decimal.simps) simp
  qed
qed

text \<open>The digits are the decimal notation of the number: read back, they give it.\<close>

lemma digit_value:
  assumes "d < 10"
  shows "of_char (''0123456789'' ! d) = (48 + d :: nat)"
proof -
  from assms consider "d = 0" | "d = 1" | "d = 2" | "d = 3" | "d = 4" | "d = 5" | "d = 6"
    | "d = 7" | "d = 8" | "d = 9"
    by (auto simp: less_Suc_eq eval_nat_numeral)
  then show ?thesis by cases simp_all
qed

lemma decimal_value:
  "foldl (\<lambda>a c. 10 * a + (of_char c - 48)) 0 (decimal m) = m"
proof (induction m rule: decimal.induct)
  case (1 m)
  show ?case
  proof (cases "m < 10")
    case True
    then show ?thesis by (subst decimal.simps) (simp add: digit_value)
  next
    case False
    have "m mod 10 < 10" by simp
    with False 1 show ?thesis
      by (subst decimal.simps) (simp add: digit_value)
  qed
qed

lemma FuzzyReader_digest:
  fixes f :: "'r Reader"
  assumes "FuzzyReader f src sz = Some out" and "answer out = Inr (digest, None)"
  shows "\<exists>state1. digest = finish state1 \<and> strings_ok state1 \<and> 3 \<le> blockSize state1
    \<and> 32 \<le> length (hashString1 state1)
    \<and> passes out \<noteq> [] \<and> last (passes out) = blockSize state1"
proof -
  from assms obtain state where g: "getBlockSize sz newSsdeepState = Some state"
    and o: "out = FuzzyReader_loop f src state []"
    by (auto simp: FuzzyReader_def split: if_splits option.splits)
  from getBlockSize_Some [OF g] have "hashString1 state = []" "hashString2 state = []"
    by (auto simp: newSsdeepState_def)
  from FuzzyReader_loop_digest [OF assms(2) [unfolded o] this] show ?thesis
    unfolding o .
qed

lemma finish_cases:
  assumes "strings_ok state1" and "3 \<le> blockSize state1"
  shows "\<exists>coarse fine. finish state1 = decimal (nat (blockSize state1)) @ '':'' @ coarse @ '':'' @ fine
    \<and> FormatInt (blockSize state1) = decimal (nat (blockSize state1))
    \<and> length coarse \<le> 64 \<and> length fine \<le> 32 \<and> length fine \<le> length coarse
    \<and> length (hashString1 state1) \<le> length coarse
    \<and> set coarse \<subseteq> set b64String \<and> set fine \<subseteq> set b64String"
proof (cases "rollSum (rollingState state1) \<noteq> 0")
  case True
  with assms b64_index [of "blockHash1 state1"] b64_index [of "blockHash2 state1"]
  show ?thesis
    by (intro exI [of _ "hashString1 state1 @ [b64 ! unat (blockHash1 state1 mod 64)]"]
          exI [of _ "hashString2 state1 @ [b64 ! unat (blockHash2 state1 mod 64)]"])
       (simp add: finish_def Sprintf_digest_def FormatInt_def strings_ok_def)
next
  case False
  with assms show ?thesis
    by (intro exI [of _ "hashString1 state1"] exI [of _ "hashString2 state1"])
       (simp add: finish_def Sprintf_digest_def FormatInt_def strings_ok_def)
qed

text \<open>
  C4. A digest returned with a nil error is the block size in decimal, a colon, the
  coarse string, a colon and the fine string: the block size is positive and written
  with digits only, which read back give it, the coarse string has at most 64
  characters, the fine string at most 32, and both are made of characters of the
  alphabet.
\<close>

theorem FuzzyReader_digest_format:
  fixes f :: "'r Reader"
  assumes "FuzzyReader f src sz = Some out" and "answer out = Inr (digest, None)"
  shows "\<exists>bs coarse fine.
      digest = FormatInt bs @ '':'' @ coarse @ '':'' @ fine
    \<and> 0 < bs \<and> FormatInt bs \<noteq> [] \<and> set (FormatInt bs) \<subseteq> set ''0123456789''
    \<and> foldl (\<lambda>a c. 10 * a + (of_char c - 48)) 0 (FormatInt bs) = nat bs
    \<and> length coarse \<le> 64 \<and> length fine \<le> 32
    \<and> set coarse \<subseteq> set b64String \<and> set fine \<subseteq> set b64String"
proof -
  from FuzzyReader_digest [OF assms] obtain state1 where
    s: "digest = finish state1" "strings_ok state1" "3 \<le> blockSize state1"
    by blast
  from finish_cases [OF s(2,3)] obtain coarse fine where
    c: "finish state1 = decimal (nat (blockSize state1)) @ '':'' @ coarse @ '':'' @ fine"
      "FormatInt (blockSize state1) = decimal (nat (blockSize state1))"
      "length coarse \<le> 64" "length fine \<le> 32"
      "set coarse \<subseteq> set b64String" "set fine \<subseteq> set b64String"
    by blast
  from decimal_digits [of "nat (blockSize state1)"] decimal_value [of "nat (blockSize state1)"]
    s(1,3) c show ?thesis
    by (intro exI [of _ "blockSize state1"] exI [of _ coarse] exI [of _ fine]) simp
qed

text \<open>A run that ends with a digest: 52 bytes repeating 2, 7, 0 trigger often enough at
  block size 96.\<close>

lemma sample_run:
  "FuzzyReader bytes_Reader (bytes_NewReader 
       [2, 7, 0, 2, 7, 0, 2, 7, 0, 2, 7, 0, 2, 7, 0, 2, 7, 0, 2, 7, 0, 2, 7, 0, 2, 7, 0,
        2, 7, 0, 2, 7, 0, 2, 7, 0, 2, 7, 0, 2, 7, 0, 2, 7, 0, 2, 7, 0, 2, 7, 0, 2]) 4096
   = Some \<lparr>answer = Inr (''96:1nGnGnGnGnGnGnGnGnGnGnGnGnGnGnGnn:1GGGGGGGGGGGGGGGn'', None),
           source = \<lparr>data = 
       [2, 7, 0, 2, 7, 0, 2, 7, 0, 2, 7, 0, 2, 7, 0, 2, 7, 0, 2, 7, 0, 2, 7, 0, 2, 7, 0,
        2, 7, 0, 2, 7, 0, 2, 7, 0, 2, 7, 0, 2, 7, 0, 2, 7, 0, 2, 7, 0, 2, 7, 0, 2], pos = 52\<rparr>,
           passes = [96]\<rparr>"
  by code_simp

theorem FuzzyReader_digest_format_witness:
  "FuzzyReader bytes_Reader (bytes_NewReader 
       [2, 7, 0, 2, 7, 0, 2, 7, 0, 2, 7, 0, 2, 7, 0, 2, 7, 0, 2, 7, 0, 2, 7, 0, 2, 7, 0,
        2, 7, 0, 2, 7, 0, 2, 7, 0, 2, 7, 0, 2, 7, 0, 2, 7, 0, 2, 7, 0, 2, 7, 0, 2]) 4096
   = Some \<lparr>answer = Inr (''96:1nGnGnGnGnGnGnGnGnGnGnGnGnGnGnGnn:1GGGGGGGGGGGGGGGn'', None),
           source = \<lparr>data = 
       [2, 7, 0, 2, 7, 0, 2, 7, 0, 2, 7, 0, 2, 7, 0, 2, 7, 0, 2, 7, 0, 2, 7, 0, 2, 7, 0,
        2, 7, 0, 2, 7, 0, 2, 7, 0, 2, 7, 0, 2, 7, 0, 2, 7, 0, 2, 7, 0, 2, 7, 0, 2], pos = 52\<rparr>,
           passes = [96]\<rparr>
   \<and> (\<exists>bs coarse fine.
        ''96:1nGnGnGnGnGnGnGnGnGnGnGnGnGnGnGnn:1GGGGGGGGGGGGGGGn''
          = FormatInt bs @ '':'' @ coarse @ '':'' @ fine
      \<and> 0 < bs \<and> FormatInt bs \<noteq> [] \<and> set (FormatInt bs) \<subseteq> set ''0123456789''
      \<and> foldl (\<lambda>a c. 10 * a + (of_char c - 48)) 0 (FormatInt bs) = nat bs
      \<and> length coarse \<le> 64 \<and> length fine \<le> 32
      \<and> set coarse \<subseteq> set b64String \<and> set fine \<subseteq> set b64String)"
  using FuzzyReader_digest_format [OF sample_run] sample_run by simp

text \<open>
  C10. The fine string is never longer than the coarse one. A byte that lengthens the
  fine string is a byte on which the coarse trigger fired; after any number of bytes of
  a pass that started with both strings empty, the fine string is at most as long as
  the coarse one, and they have at most 31 and 63 characters; and the fine string of a
  returned digest is at most as long as its coarse string.
\<close>

theorem fine_never_longer_than_coarse:
  fixes f :: "'r Reader"
  shows "(processByte b state = Inr state' \<and> hashString2 state' \<noteq> hashString2 state \<longrightarrow>
            rem64 (uint (rollSum (rollingState state'))) (blockSize state)
            = wrap64 (blockSize state - 1))
       \<and> (hashString1 st0 = [] \<and> hashString2 st0 = []
            \<and> processBytes (take k bytes) (newRollingState st0) = Inr st1 \<longrightarrow>
            length (hashString2 st1) \<le> length (hashString1 st1)
            \<and> length (hashString1 st1) \<le> 63 \<and> length (hashString2 st1) \<le> 31)
       \<and> (FuzzyReader f src sz = Some out \<and> answer out = Inr (digest, None) \<longrightarrow>
            (\<exists>bs coarse fine.
                digest = FormatInt bs @ '':'' @ coarse @ '':'' @ fine
              \<and> set (FormatInt bs) \<subseteq> set ''0123456789''
              \<and> set coarse \<subseteq> set b64String \<and> set fine \<subseteq> set b64String
              \<and> length fine \<le> length coarse))"
proof (intro conjI impI)
  assume "processByte b state = Inr state' \<and> hashString2 state' \<noteq> hashString2 state"
  then show "rem64 (uint (rollSum (rollingState state'))) (blockSize state)
      = wrap64 (blockSize state - 1)"
    using processByte_fine_needs_coarse by blast
next
  assume a: "hashString1 st0 = [] \<and> hashString2 st0 = []
    \<and> processBytes (take k bytes) (newRollingState st0) = Inr st1"
  then have "strings_ok (newRollingState st0)"
    by (simp add: strings_ok_def newRollingState_def)
  with a have "strings_ok st1" using processBytes_strings_ok by blast
  then show "length (hashString2 st1) \<le> length (hashString1 st1)"
    "length (hashString1 st1) \<le> 63" "length (hashString2 st1) \<le> 31"
    by (simp_all add: strings_ok_def)
next
  assume a: "FuzzyReader f src sz = Some out \<and> answer out = Inr (digest, None)"
  then obtain state1 where
    s: "digest = finish state1" "strings_ok state1" "3 \<le> blockSize state1"
    using FuzzyReader_digest [of f src sz out digest] by blast
  from finish_cases [OF s(2,3)] obtain coarse fine where
    c: "finish state1 = decimal (nat (blockSize state1)) @ '':'' @ coarse @ '':'' @ fine"
      "FormatInt (blockSize state1) = decimal (nat (blockSize state1))"
      "length fine \<le> length coarse"
      "set coarse \<subseteq> set b64String" "set fine \<subseteq> set b64String"
    by blast
  from decimal_digits [of "nat (blockSize state1)"] s(1) c
  show "\<exists>bs coarse fine.
      digest = FormatInt bs @ '':'' @ coarse @ '':'' @ fine
    \<and> set (FormatInt bs) \<subseteq> set ''0123456789''
    \<and> set coarse \<subseteq> set b64String \<and> set fine \<subseteq> set b64String
    \<and> length fine \<le> length coarse"
    by (intro exI [of _ "blockSize state1"] exI [of _ coarse] exI [of _ fine]) simp
qed

lemma fine_trigger_step:
  "processByte 1 (newRollingState (newSsdeepState\<lparr>blockSize := 1\<rparr>))
   = Inr \<lparr>rollingState = \<lparr>window = [1, 0, 0, 0, 0, 0, 0], h1 = 1, h2 = 7, h3 = 1, n = 1\<rparr>,
          blockSize = 1, hashString1 = ''k'', hashString2 = ''k'',
          blockHash1 = 671226215, blockHash2 = 671226215\<rparr>"
  by code_simp

theorem fine_never_longer_than_coarse_witness:
  "(\<exists>state'. processByte 1 (newRollingState (newSsdeepState\<lparr>blockSize := 1\<rparr>)) = Inr state'
      \<and> hashString2 state' \<noteq> hashString2 (newRollingState (newSsdeepState\<lparr>blockSize := 1\<rparr>))
      \<and> rem64 (uint (rollSum (rollingState state'))) 1 = wrap64 (1 - 1))
   \<and> (\<exists>st1. processBytes (take 20 
       [2, 7, 0, 2, 7, 0, 2, 7, 0, 2, 7, 0, 2, 7, 0, 2, 7, 0, 2, 7, 0, 2, 7, 0, 2, 7, 0,
        2, 7, 0, 2, 7, 0, 2, 7, 0, 2, 7, 0, 2, 7, 0, 2, 7, 0, 2, 7, 0, 2, 7, 0, 2])
               (newRollingState (newSsdeepState\<lparr>blockSize := 96\<rparr>)) = Inr st1
        \<and> length (hashString2 st1) \<le> length (hashString1 st1)
        \<and> length (hashString1 st1) \<le> 63 \<and> length (hashString2 st1) \<le> 31)
   \<and> (FuzzyReader bytes_Reader (bytes_NewReader 
       [2, 7, 0, 2, 7, 0, 2, 7, 0, 2, 7, 0, 2, 7, 0, 2, 7, 0, 2, 7, 0, 2, 7, 0, 2, 7, 0,
        2, 7, 0, 2, 7, 0, 2, 7, 0, 2, 7, 0, 2, 7, 0, 2, 7, 0, 2, 7, 0, 2, 7, 0, 2]) 4096
        = Some \<lparr>answer = Inr (''96:1nGnGnGnGnGnGnGnGnGnGnGnGnGnGnGnn:1GGGGGGGGGGGGGGGn'', None),
                source = \<lparr>data = 
       [2, 7, 0, 2, 7, 0, 2, 7, 0, 2, 7, 0, 2, 7, 0, 2, 7, 0, 2, 7, 0, 2, 7, 0, 2, 7, 0,
        2, 7, 0, 2, 7, 0, 2, 7, 0, 2, 7, 0, 2, 7, 0, 2, 7, 0, 2, 7, 0, 2, 7, 0, 2], pos = 52\<rparr>,
                passes = [96]\<rparr>
      \<and> (\<exists>bs coarse fine.
            ''96:1nGnGnGnGnGnGnGnGnGnGnGnGnGnGnGnn:1GGGGGGGGGGGGGGGn'' = FormatInt bs @ '':'' @ coarse @ '':'' @ fine
          \<and> set (FormatInt bs) \<subseteq> set ''0123456789''
          \<and> set coarse \<subseteq> set b64String \<and> set fine \<subseteq> set b64String
          \<and> length fine \<le> length coarse))"
proof -
  let ?s1 = "newRollingState (newSsdeepState\<lparr>blockSize := 1\<rparr>)"
  let ?s96 = "newSsdeepState\<lparr>blockSize := 96\<rparr>"
  let ?bytes = "
       [2, 7, 0, 2, 7, 0, 2, 7, 0, 2, 7, 0, 2, 7, 0, 2, 7, 0, 2, 7, 0, 2, 7, 0, 2, 7, 0,
        2, 7, 0, 2, 7, 0, 2, 7, 0, 2, 7, 0, 2, 7, 0, 2, 7, 0, 2, 7, 0, 2, 7, 0, 2]"
  let ?out = "\<lparr>answer = Inr (''96:1nGnGnGnGnGnGnGnGnGnGnGnGnGnGnGnn:1GGGGGGGGGGGGGGGn'', None),
                source = \<lparr>data = ?bytes, pos = 52\<rparr>, passes = [96]\<rparr>"
  from fine_trigger_step obtain st' where
    a: "processByte 1 ?s1 = Inr st'" "hashString2 st' = ''k''" by simp
  have a2: "hashString2 st' \<noteq> hashString2 ?s1"
    using a(2) by (simp add: newRollingState_def newSsdeepState_def)
  have "blockSize ?s96 \<noteq> 0" "wrap64 (blockSize ?s96 * 2) \<noteq> 0" by (simp_all add: wrap64_def)
  from pass_no_panic [OF this, of "take 20 ?bytes"] obtain st1 where
    b: "processBytes (take 20 ?bytes) (newRollingState ?s96) = Inr st1" by blast
  have e: "hashString1 ?s96 = [] \<and> hashString2 ?s96 = []" by (simp add: newSsdeepState_def)
  note inst = fine_never_longer_than_coarse
    [of 1 ?s1 st' ?s96 20 ?bytes st1 bytes_Reader "bytes_NewReader ?bytes" 4096 ?out "''96:1nGnGnGnGnGnGnGnGnGnGnGnGnGnGnGnn:1GGGGGGGGGGGGGGGn''"]
  from inst a a2 have c1: "rem64 (uint (rollSum (rollingState st'))) (blockSize ?s1)
      = wrap64 (blockSize ?s1 - 1)" by blast
  from inst b e have c2: "length (hashString2 st1) \<le> length (hashString1 st1)
      \<and> length (hashString1 st1) \<le> 63 \<and> length (hashString2 st1) \<le> 31" by blast
  from inst sample_run have c3: "\<exists>bs coarse fine.
        ''96:1nGnGnGnGnGnGnGnGnGnGnGnGnGnGnGnn:1GGGGGGGGGGGGGGGn'' = FormatInt bs @ '':'' @ coarse @ '':'' @ fine
      \<and> set (FormatInt bs) \<subseteq> set ''0123456789''
      \<and> set coarse \<subseteq> set b64String \<and> set fine \<subseteq> set b64String
      \<and> length fine \<le> length coarse" by simp
  have bs1: "blockSize ?s1 = 1" by (simp add: newRollingState_def)
  show ?thesis
    using a(1) a2 c1 [unfolded bs1] b c2 sample_run c3 by blast
qed

section \<open>Read errors\<close>

lemma FuzzyReader_in_range:
  fixes f :: "'r Reader"
  assumes "FuzzyReader f src sz = Some out" and "4096 \<le> sz"
  shows "\<exists>j m d e. j \<le> 55 \<and> sz \<le> 3 * 2 ^ j * 64 \<and> (\<forall>i<j. 3 * 2 ^ i * 64 < sz)
    \<and> 1 \<le> m \<and> m \<le> j + 2 \<and> passes out = take m (halvings j) \<and> answer out = Inr (d, e)
    \<and> (m = j + 2 \<longrightarrow> e = Some ErrSmallBlock) \<and> (m < j + 2 \<longrightarrow> e = None)"
proof -
  from assms obtain state where g: "getBlockSize sz newSsdeepState = Some state"
    and o: "out = FuzzyReader_loop f src state []"
    by (auto simp: FuzzyReader_def minFileSize_def split: option.splits)
  from getBlockSize_Some [OF g] obtain j where
    j: "j \<le> 55" "blockSize state = 3 * 2 ^ j" "sz \<le> 3 * 2 ^ j * 64"
      "\<forall>i<j. 3 * 2 ^ i * 64 < sz"
    by auto
  from loop_schedule [OF j(2,1), of f src "[]"] obtain m d e where
    "1 \<le> m" "m \<le> j + 2" "passes out = take m (halvings j)" "answer out = Inr (d, e)"
    "m = j + 2 \<longrightarrow> e = Some ErrSmallBlock" "m < j + 2 \<longrightarrow> e = None"
    unfolding o by auto
  with j(1,3,4) show ?thesis by blast
qed

lemma FuzzyReader_answers:
  fixes f :: "'r Reader"
  assumes "FuzzyReader f src sz = Some out"
  shows "answer out = Inr ([], Some ErrSmallInput) \<or> answer out = Inr ([], Some ErrSmallBlock)
    \<or> (\<exists>d. answer out = Inr (d, None))"
proof (cases "sz < 4096")
  case True
  with assms show ?thesis by (auto simp: FuzzyReader_def minFileSize_def)
next
  case False
  then have "4096 \<le> sz" by simp
  from FuzzyReader_in_range [OF assms this] obtain j m :: nat and d e where
    r: "answer out = Inr (d, e)" "m \<le> j + 2" "m = j + 2 \<longrightarrow> e = Some ErrSmallBlock"
      "m < j + 2 \<longrightarrow> e = None"
    by blast
  from assms False obtain state where o: "out = FuzzyReader_loop f src state []"
    by (auto simp: FuzzyReader_def minFileSize_def split: option.splits)
  show ?thesis
  proof (cases e)
    case None
    with r(1) show ?thesis by simp
  next
    case (Some x)
    with r have "e = Some ErrSmallBlock" by (cases "m = j + 2") auto
    with r(1) FuzzyReader_loop_answer [of f src state "[]" d ErrSmallBlock] o
    show ?thesis by simp
  qed
qed

lemma FuzzyReader_loop_drops_read_error:
  fixes f :: "'r Reader"
  shows "FuzzyReader_loop
       (f\<lparr>Drain := \<lambda>s. case Drain f s of ((bytes, e), s') \<Rightarrow> ((bytes, EOF), s')\<rparr>) src state tr
     = FuzzyReader_loop f src state tr"
proof (induction f src state tr rule: FuzzyReader_loop_induct)
  case (pass f src state tr)
  let ?g = "f\<lparr>Drain := \<lambda>s. case Drain f s of ((bytes, e), s') \<Rightarrow> ((bytes, EOF), s')\<rparr>"
  obtain bytes e src2 where d: "Drain f (Seek f 0 0 src) = ((bytes, e), src2)"
    by (metis prod.exhaust)
  then have d': "Drain ?g (Seek ?g 0 0 src) = ((bytes, EOF), src2)" by simp
  show ?case
  proof (cases "processBytes bytes (newRollingState state)")
    case (Inl p)
    show ?thesis
      by (subst FuzzyReader_loop_unfold, subst (2) FuzzyReader_loop_unfold)
         (simp only: d d' Inl prod.case sum.case)
  next
    case (Inr st1)
    show ?thesis
    proof (cases "3 \<le> blockSize state \<and> length (hashString1 st1) < 32")
      case True
      with pass.IH [OF d Inr] have
        "FuzzyReader_loop ?g src2 (restart st1) (tr @ [blockSize state])
         = FuzzyReader_loop f src2 (restart st1) (tr @ [blockSize state])"
        by simp
      with True show ?thesis
        by (subst FuzzyReader_loop_unfold, subst (2) FuzzyReader_loop_unfold)
           (simp add: d d' Inr del: Reader.simps)
    next
      case False
      then show ?thesis
        by (subst FuzzyReader_loop_unfold, subst (2) FuzzyReader_loop_unfold)
           (auto simp add: d d' Inr simp del: Reader.simps)
    qed
  qed
qed

text \<open>
  What the code does with a read error: whatever a call returns is \<^verbatim>\<open>ErrSmallInput\<close>,
  \<^verbatim>\<open>ErrSmallBlock\<close> or a digest with a nil error, and the whole run is the one of the
  same source with every read error replaced by \<^verbatim>\<open>io.EOF\<close>.
\<close>

lemma FuzzyReader_read_errors_dropped:
  fixes f :: "'r Reader"
  shows "(FuzzyReader f src sz = Some out \<longrightarrow>
            answer out = Inr ([], Some ErrSmallInput)
          \<or> answer out = Inr ([], Some ErrSmallBlock)
          \<or> (\<exists>d. answer out = Inr (d, None)))
       \<and> FuzzyReader
            (f\<lparr>Drain := \<lambda>s. case Drain f s of ((bytes, e), s') \<Rightarrow> ((bytes, EOF), s')\<rparr>) src sz
          = FuzzyReader f src sz"
  using FuzzyReader_answers [of f src sz out]
  by (simp add: FuzzyReader_def FuzzyReader_loop_drops_read_error del: Reader.simps
        split: option.splits)

text \<open>A source whose every read delivers the 52 bytes of the sample and then fails.\<close>

lemma failing_source_run:
  "FuzzyReader
     \<lparr>Seek = (\<lambda>offset whence u. u),
      Drain = (\<lambda>u. ((
       [2, 7, 0, 2, 7, 0, 2, 7, 0, 2, 7, 0, 2, 7, 0, 2, 7, 0, 2, 7, 0, 2, 7, 0, 2, 7, 0,
        2, 7, 0, 2, 7, 0, 2, 7, 0, 2, 7, 0, 2, 7, 0, 2, 7, 0, 2, 7, 0, 2, 7, 0, 2], IOFailure ''read failed''), u))\<rparr> () 4096
   = Some \<lparr>answer = Inr (''96:1nGnGnGnGnGnGnGnGnGnGnGnGnGnGnGnn:1GGGGGGGGGGGGGGGn'', None), source = (), passes = [96]\<rparr>"
  by code_simp

text \<open>
  C2. The read error is not returned. On a source that delivers 52 bytes and then fails,
  the loop of \<^verbatim>\<open>process\<close> ends on the failure as it would on \<^verbatim>\<open>io.EOF\<close>, the error is
  dropped, and the call answers with the digest of the bytes read so far and a nil
  error.
\<close>

theorem read_error_not_returned:
  "FuzzyReader
     \<lparr>Seek = (\<lambda>offset whence u. u),
      Drain = (\<lambda>u. ((
       [2, 7, 0, 2, 7, 0, 2, 7, 0, 2, 7, 0, 2, 7, 0, 2, 7, 0, 2, 7, 0, 2, 7, 0, 2, 7, 0,
        2, 7, 0, 2, 7, 0, 2, 7, 0, 2, 7, 0, 2, 7, 0, 2, 7, 0, 2, 7, 0, 2, 7, 0, 2], IOFailure ''read failed''), u))\<rparr> () 4096
   = Some \<lparr>answer = Inr (''96:1nGnGnGnGnGnGnGnGnGnGnGnGnGnGnGnn:1GGGGGGGGGGGGGGGn'', None), source = (), passes = [96]\<rparr>"
  by (rule failing_source_run)

section \<open>Determinism over an in-memory source\<close>

lemma bytes_pass:
  "Drain bytes_Reader (Seek bytes_Reader 0 0 r)
   = ((data r, EOF), \<lparr>data = data r, pos = int (length (data r))\<rparr>)"
  by (cases r) (simp add: bytes_Reader_def bytes_Seek_def bytes_Drain_def)

lemma FuzzyReader_loop_bytes:
  fixes f :: "bytes_Reader Reader"
  assumes "f = bytes_Reader" and "data r2 = data r1"
  shows "FuzzyReader_loop f r2 state tr = FuzzyReader_loop f r1 state tr"
  using assms
proof (induction f r1 state tr arbitrary: r2 rule: FuzzyReader_loop_induct)
  case (pass f r1 state tr)
  let ?e = "\<lparr>data = data r1, pos = int (length (data r1))\<rparr>"
  have d1: "Drain f (Seek f 0 0 r1) = ((data r1, EOF), ?e)"
    unfolding pass.prems(1) by (rule bytes_pass)
  have d2: "Drain f (Seek f 0 0 r2) = ((data r1, EOF), ?e)"
    unfolding pass.prems(1) using bytes_pass [of r2] pass.prems(2) by simp
  show ?case
    by (subst FuzzyReader_loop_unfold, subst (2) FuzzyReader_loop_unfold)
       (simp only: d1 d2)
qed

lemma FuzzyReader_bytes:
  assumes "data r2 = data r1"
  shows "FuzzyReader bytes_Reader r2 sz = FuzzyReader bytes_Reader r1 sz
       \<or> (sz < 4096 \<and> map_option answer (FuzzyReader bytes_Reader r2 sz)
                     = map_option answer (FuzzyReader bytes_Reader r1 sz))"
  using FuzzyReader_loop_bytes [OF refl assms]
  by (auto simp: FuzzyReader_def minFileSize_def split: option.splits)

lemma FuzzyBytes_answer:
  "FuzzyBytes buffer
   = map_option answer
       (FuzzyReader bytes_Reader (bytes_NewReader buffer) (int (length buffer)))"
proof (cases "FuzzyReader bytes_Reader (bytes_NewReader buffer) (int (length buffer))")
  case None
  then show ?thesis by (simp add: FuzzyBytes_def Let_def)
next
  case (Some out)
  from FuzzyReader_answers [OF Some] Some show ?thesis
    by (auto simp: FuzzyBytes_def Let_def)
qed

text \<open>
  C9. What \<^verbatim>\<open>FuzzyReader\<close> returns over an in-memory source is a function of the bytes
  and the declared size alone: two sources holding the same bytes give the same digest
  and the same error, wherever their read positions stand, so also the source a previous
  call has left behind. \<^verbatim>\<open>FuzzyBytes\<close> returns just that, for the length of the buffer.
\<close>

theorem FuzzyBytes_deterministic:
  "(data r1 = buffer \<and> data r2 = buffer \<longrightarrow>
      map_option answer (FuzzyReader bytes_Reader r1 sz)
      = map_option answer (FuzzyReader bytes_Reader r2 sz))
   \<and> (data r1 = buffer \<longrightarrow>
      FuzzyBytes buffer
      = map_option answer (FuzzyReader bytes_Reader r1 (int (length buffer))))"
proof (intro conjI impI)
  assume "data r1 = buffer \<and> data r2 = buffer"
  then have "data r1 = data r2" by simp
  from FuzzyReader_bytes [OF this, of sz]
  show "map_option answer (FuzzyReader bytes_Reader r1 sz)
      = map_option answer (FuzzyReader bytes_Reader r2 sz)"
    by auto
next
  assume "data r1 = buffer"
  then have "data r1 = data (bytes_NewReader buffer)" by (simp add: bytes_NewReader_def)
  from FuzzyReader_bytes [OF this, of "int (length buffer)"]
  show "FuzzyBytes buffer
      = map_option answer (FuzzyReader bytes_Reader r1 (int (length buffer)))"
    unfolding FuzzyBytes_answer by auto
qed

theorem FuzzyBytes_deterministic_witness:
  "map_option answer (FuzzyReader bytes_Reader (bytes_NewReader 
       [2, 7, 0, 2, 7, 0, 2, 7, 0, 2, 7, 0, 2, 7, 0, 2, 7, 0, 2, 7, 0, 2, 7, 0, 2, 7, 0,
        2, 7, 0, 2, 7, 0, 2, 7, 0, 2, 7, 0, 2, 7, 0, 2, 7, 0, 2, 7, 0, 2, 7, 0, 2]) 4096)
   = Some (Inr (''96:1nGnGnGnGnGnGnGnGnGnGnGnGnGnGnGnn:1GGGGGGGGGGGGGGGn'', None))
   \<and> map_option answer (FuzzyReader bytes_Reader \<lparr>data = 
       [2, 7, 0, 2, 7, 0, 2, 7, 0, 2, 7, 0, 2, 7, 0, 2, 7, 0, 2, 7, 0, 2, 7, 0, 2, 7, 0,
        2, 7, 0, 2, 7, 0, 2, 7, 0, 2, 7, 0, 2, 7, 0, 2, 7, 0, 2, 7, 0, 2, 7, 0, 2], pos = 52\<rparr> 4096)
   = Some (Inr (''96:1nGnGnGnGnGnGnGnGnGnGnGnGnGnGnGnn:1GGGGGGGGGGGGGGGn'', None))
   \<and> FuzzyBytes 
       [2, 7, 0, 2, 7, 0, 2, 7, 0, 2, 7, 0, 2, 7, 0, 2, 7, 0, 2, 7, 0, 2, 7, 0, 2, 7, 0,
        2, 7, 0, 2, 7, 0, 2, 7, 0, 2, 7, 0, 2, 7, 0, 2, 7, 0, 2, 7, 0, 2, 7, 0, 2] = Some (Inr ([], Some ErrSmallInput))
   \<and> map_option answer (FuzzyReader bytes_Reader \<lparr>data = 
       [2, 7, 0, 2, 7, 0, 2, 7, 0, 2, 7, 0, 2, 7, 0, 2, 7, 0, 2, 7, 0, 2, 7, 0, 2, 7, 0,
        2, 7, 0, 2, 7, 0, 2, 7, 0, 2, 7, 0, 2, 7, 0, 2, 7, 0, 2, 7, 0, 2, 7, 0, 2], pos = 52\<rparr> 52)
   = Some (Inr ([], Some ErrSmallInput))"
proof -
  let ?b = "
       [2, 7, 0, 2, 7, 0, 2, 7, 0, 2, 7, 0, 2, 7, 0, 2, 7, 0, 2, 7, 0, 2, 7, 0, 2, 7, 0,
        2, 7, 0, 2, 7, 0, 2, 7, 0, 2, 7, 0, 2, 7, 0, 2, 7, 0, 2, 7, 0, 2, 7, 0, 2]"
  have d: "data (bytes_NewReader ?b) = ?b \<and> data \<lparr>data = ?b, pos = 52\<rparr> = ?b"
    by (simp add: bytes_NewReader_def)
  have d2: "data \<lparr>data = ?b, pos = 52\<rparr> = ?b" by simp
  have l: "int (length ?b) = 52" by simp
  have small: "FuzzyBytes ?b = Some (Inr ([], Some ErrSmallInput))"
    by (simp add: FuzzyBytes_def Let_def FuzzyReader_def minFileSize_def)
  from FuzzyBytes_deterministic
      [of "bytes_NewReader ?b" ?b "\<lparr>data = ?b, pos = 52\<rparr>" 4096] d sample_run
  have one: "map_option answer (FuzzyReader bytes_Reader \<lparr>data = ?b, pos = 52\<rparr> 4096)
      = Some (Inr (''96:1nGnGnGnGnGnGnGnGnGnGnGnGnGnGnGnn:1GGGGGGGGGGGGGGGn'', None))"
    by simp
  from FuzzyBytes_deterministic
      [of "\<lparr>data = ?b, pos = 52\<rparr>" ?b "\<lparr>data = ?b, pos = 52\<rparr>" 52] d2 small
  have two: "map_option answer (FuzzyReader bytes_Reader \<lparr>data = ?b, pos = 52\<rparr> 52)
      = Some (Inr ([], Some ErrSmallInput))"
    unfolding l by simp
  from one two small sample_run show ?thesis by simp
qed

section \<open>Inputs on which every block size fails\<close>

lemma fresh_pass_state:
  assumes "hashString1 state = []" and "hashString2 state = []"
    and "blockHash1 state = hashInit" and "blockHash2 state = hashInit"
  shows "newRollingState state = newRollingState (newSsdeepState\<lparr>blockSize := blockSize state\<rparr>)"
  using assms by (cases state) (simp add: newRollingState_def newSsdeepState_def)

lemma restart_fresh:
  "hashString1 (restart st) = []" "hashString2 (restart st) = []"
  "blockHash1 (restart st) = hashInit" "blockHash2 (restart st) = hashInit"
  by (simp_all add: restart_def)

lemma bytes_loop_all_fail:
  assumes "data r = buffer" and "j \<le> 55" and "blockSize state = 3 * 2 ^ j"
    and "hashString1 state = []" and "hashString2 state = []"
    and "blockHash1 state = hashInit" and "blockHash2 state = hashInit"
    and "\<forall>i\<le>j. \<forall>st1.
           processBytes buffer (newRollingState (newSsdeepState\<lparr>blockSize := 3 * 2 ^ i\<rparr>)) = Inr st1
           \<longrightarrow> length (hashString1 st1) < 32"
  shows "FuzzyReader_loop bytes_Reader r state tr
    = \<lparr>answer = Inr ([], Some ErrSmallBlock),
       source = \<lparr>data = buffer, pos = int (length buffer)\<rparr>,
       passes = tr @ halvings j\<rparr>"
  using assms
proof (induction j arbitrary: r state tr)
  case 0
  let ?e = "\<lparr>data = buffer, pos = int (length buffer)\<rparr>"
  have d: "Drain bytes_Reader (Seek bytes_Reader 0 0 r) = ((buffer, EOF), ?e)"
    using bytes_pass [of r] "0.prems"(1) by simp
  have bs: "blockSize state = 3" using "0.prems"(3) by simp
  from bs pass_no_panic [of state buffer] obtain st1 where
    p: "processBytes buffer (newRollingState state) = Inr st1"
    by (auto simp: wrap64_def)
  from fresh_pass_state [OF "0.prems"(4-7)] p bs "0.prems"(8)
  have short: "length (hashString1 st1) < 32" by simp
  have r1: "blockSize (restart st1) = 1"
    using processBytes_blockSize [OF p] bs by (simp add: restart_def newRollingState_def quot64_3)
  have d2: "snd (Drain bytes_Reader (Seek bytes_Reader 0 0 ?e)) = ?e"
    using bytes_pass [of ?e] by simp
  have "FuzzyReader_loop bytes_Reader r state tr
      = FuzzyReader_loop bytes_Reader ?e (restart st1) (tr @ [3])"
    by (subst FuzzyReader_loop_unfold) (simp add: d p bs short)
  then show ?case unfolding loop_at_1 [OF r1] d2 by simp
next
  case (Suc j)
  let ?e = "\<lparr>data = buffer, pos = int (length buffer)\<rparr>"
  let ?b = "3 * 2 ^ Suc j :: int"
  have d: "Drain bytes_Reader (Seek bytes_Reader 0 0 r) = ((buffer, EOF), ?e)"
    using bytes_pass [of r] Suc.prems(1) by simp
  have nz: "blockSize state \<noteq> 0" using Suc.prems(3) by simp
  have nz2: "wrap64 (blockSize state * 2) \<noteq> 0"
    unfolding Suc.prems(3) by (rule wrap64_double_nonzero [OF Suc.prems(2)])
  from pass_no_panic [OF nz nz2, of buffer] obtain st1 where
    p: "processBytes buffer (newRollingState state) = Inr st1" by blast
  from fresh_pass_state [OF Suc.prems(4-7)] p Suc.prems(3) Suc.prems(8)
  have short: "length (hashString1 st1) < 32" by auto
  have nlt: "\<not> blockSize state < 3"
    using three_le_blockSize [of "Suc j"] Suc.prems(3) by simp
  have b1: "blockSize st1 = ?b"
    using processBytes_blockSize [OF p] Suc.prems(3) by (simp add: newRollingState_def)
  have r1: "blockSize (restart st1) = 3 * 2 ^ j"
    using quot64_Suc [of j] Suc.prems(2) by (simp add: restart_def b1)
  have "FuzzyReader_loop bytes_Reader r state tr
      = FuzzyReader_loop bytes_Reader ?e (restart st1) (tr @ [blockSize state])"
    by (subst FuzzyReader_loop_unfold) (simp add: d p nlt short)
  also have "\<dots> = \<lparr>answer = Inr ([], Some ErrSmallBlock), source = ?e,
       passes = (tr @ [blockSize state]) @ halvings j\<rparr>"
  proof (rule Suc.IH [OF _ _ r1 restart_fresh])
    show "data ?e = buffer" by simp
    show "j \<le> 55" using Suc.prems(2) by simp
    show "\<forall>i\<le>j. \<forall>st1.
        processBytes buffer (newRollingState (newSsdeepState\<lparr>blockSize := 3 * 2 ^ i\<rparr>)) = Inr st1
        \<longrightarrow> length (hashString1 st1) < 32"
      using Suc.prems(8) by (meson le_SucI)
  qed
  finally show ?case by (simp add: Suc.prems(3))
qed

lemma rollHash_zero:
  assumes "window (rollingState state) = replicate 7 0"
    and "unat (n (rollingState state)) < 7"
    and "h1 (rollingState state) = 0" and "h2 (rollingState state) = 0"
    and "h3 (rollingState state) = 0"
  shows "\<exists>k. unat k < 7 \<and> rollHash 0 state
    = Inr (state\<lparr>rollingState := \<lparr>window = replicate 7 0, h1 = 0, h2 = 0, h3 = 0, n = k\<rparr>\<rparr>)"
proof -
  have k2: "unat (n (rollingState state)) < length (window (rollingState state))"
    using assms(1,2) by simp
  have "(replicate 7 (0::u8))[unat (n (rollingState state)) := 0] = replicate 7 0"
    using assms(2) by (simp add: list_eq_iff_nth_eq nth_list_update)
  with assms next_index [OF assms(2)] show ?thesis
    unfolding rollHash_Inr [OF k2]
    by (intro exI [of _ "if n (rollingState state) + 1 = 7 then 0 else n (rollingState state) + 1"])
       (simp del: One_nat_def)
qed

lemma processByte_zero:
  assumes "window (rollingState state) = replicate 7 0"
    and "unat (n (rollingState state)) < 7"
    and "h1 (rollingState state) = 0" and "h2 (rollingState state) = 0"
    and "h3 (rollingState state) = 0"
    and "2 \<le> blockSize state" and "blockSize state \<le> 9223372036854775807"
  shows "\<exists>state'. processByte 0 state = Inr state'
    \<and> window (rollingState state') = replicate 7 0 \<and> unat (n (rollingState state')) < 7
    \<and> h1 (rollingState state') = 0 \<and> h2 (rollingState state') = 0
    \<and> h3 (rollingState state') = 0
    \<and> hashString1 state' = hashString1 state \<and> blockSize state' = blockSize state"
proof -
  let ?s = "state\<lparr>blockHash1 := sumHash 0 (blockHash1 state),
                  blockHash2 := sumHash 0 (blockHash2 state)\<rparr>"
  from rollHash_zero [of ?s] assms obtain k where
    k: "unat k < 7" "rollHash 0 ?s
      = Inr (?s\<lparr>rollingState := \<lparr>window = replicate 7 0, h1 = 0, h2 = 0, h3 = 0, n = k\<rparr>\<rparr>)"
    by auto
  have "wrap64 (blockSize state - 1) = blockSize state - 1"
    by (rule wrap64_id) (use assms(6,7) in linarith)+
  with assms(6) have "rem64 0 (blockSize state) \<noteq> wrap64 (blockSize state - 1)"
    by (simp add: rem64_def)
  with k assms(6) show ?thesis
    unfolding processByte_def Let_def by (simp add: rollSum_def)
qed

lemma processBytes_zero:
  assumes "window (rollingState state) = replicate 7 0"
    and "unat (n (rollingState state)) < 7"
    and "h1 (rollingState state) = 0" and "h2 (rollingState state) = 0"
    and "h3 (rollingState state) = 0"
    and "2 \<le> blockSize state" and "blockSize state \<le> 9223372036854775807"
  shows "\<exists>state'. processBytes (replicate m 0) state = Inr state'
    \<and> hashString1 state' = hashString1 state"
  using assms
proof (induction m arbitrary: state)
  case 0
  show ?case by simp
next
  case (Suc m)
  from processByte_zero [OF Suc.prems] obtain st1 where
    s: "processByte 0 state = Inr st1" "window (rollingState st1) = replicate 7 0"
      "unat (n (rollingState st1)) < 7" "h1 (rollingState st1) = 0"
      "h2 (rollingState st1) = 0" "h3 (rollingState st1) = 0"
      "hashString1 st1 = hashString1 state" "blockSize st1 = blockSize state"
    by blast
  from Suc.IH [OF s(2-6)] Suc.prems(6,7) s(1,7,8) show ?case by auto
qed

lemma zero_pass_is_short:
  assumes "j \<le> 55"
    and "processBytes (replicate m 0) (newRollingState (newSsdeepState\<lparr>blockSize := 3 * 2 ^ j\<rparr>))
         = Inr st1"
  shows "length (hashString1 st1) < 32"
proof -
  let ?s = "newRollingState (newSsdeepState\<lparr>blockSize := 3 * 2 ^ j\<rparr>)"
  have b: "blockSize ?s = 3 * 2 ^ j" by (simp add: newRollingState_def)
  have "(3::int) * 2 ^ j * 64 \<le> 3 * 2 ^ 61" by (rule blockSize_bounds(2) [OF assms(1)])
  moreover have "(3::int) * 2 ^ j \<le> 3 * 2 ^ j * 64" by simp
  ultimately have hi: "blockSize ?s \<le> 9223372036854775807" unfolding b by simp
  have lo: "2 \<le> blockSize ?s" unfolding b using three_le_blockSize [of j] by linarith
  have "\<exists>state'. processBytes (replicate m 0) ?s = Inr state'
      \<and> hashString1 state' = hashString1 ?s"
    by (rule processBytes_zero [OF _ _ _ _ _ lo hi])
       (simp_all add: newRollingState_def rollingWindow_def)
  with assms(2) show ?thesis by (simp add: newRollingState_def newSsdeepState_def)
qed

lemma zeros_run:
  "FuzzyReader bytes_Reader (bytes_NewReader (replicate 4096 0)) 4096
   = Some \<lparr>answer = Inr ([], Some ErrSmallBlock),
           source = \<lparr>data = replicate 4096 0, pos = 4096\<rparr>,
           passes = [96, 48, 24, 12, 6, 3, 1]\<rparr>"
proof -
  let ?s = "newSsdeepState\<lparr>blockSize := 96\<rparr>"
  have h: "halvings 5 = [96, 48, 24, 12, 6, 3, 1]" by (simp add: eval_nat_numeral)
  have "FuzzyReader_loop bytes_Reader (bytes_NewReader (replicate 4096 0)) ?s []
    = \<lparr>answer = Inr ([], Some ErrSmallBlock),
       source = \<lparr>data = replicate 4096 0, pos = int (length (replicate 4096 (0::u8)))\<rparr>,
       passes = [] @ halvings 5\<rparr>"
  proof (rule bytes_loop_all_fail)
    show "\<forall>i\<le>5. \<forall>st1.
        processBytes (replicate 4096 0) (newRollingState (newSsdeepState\<lparr>blockSize := 3 * 2 ^ i\<rparr>))
          = Inr st1 \<longrightarrow> length (hashString1 st1) < 32"
    proof (intro allI impI)
      fix i :: nat and st1
      assume "i \<le> 5" and p: "processBytes (replicate 4096 0)
          (newRollingState (newSsdeepState\<lparr>blockSize := 3 * 2 ^ i\<rparr>)) = Inr st1"
      then have "i \<le> 55" by simp
      from zero_pass_is_short [OF this p] show "length (hashString1 st1) < 32" .
    qed
  qed (simp_all add: bytes_NewReader_def newSsdeepState_def)
  then show ?thesis
    by (simp add: FuzzyReader_def minFileSize_def getBlockSize_4096 h)
qed

text \<open>
  C1. On 4096 zero bytes the rolling sum stays 0, so no trigger fires at any block size
  from 96 down to 3 and the coarse string stays empty; a last pass runs with block size
  1 and the call returns \<^verbatim>\<open>ErrSmallBlock\<close>, not a digest.
\<close>

theorem FuzzyReader_4096_zero_bytes:
  "FuzzyReader bytes_Reader (bytes_NewReader (replicate 4096 0)) 4096
   = Some \<lparr>answer = Inr ([], Some ErrSmallBlock),
           source = \<lparr>data = replicate 4096 0, pos = 4096\<rparr>,
           passes = [96, 48, 24, 12, 6, 3, 1]\<rparr>"
  by (rule zeros_run)

text \<open>Through \<^verbatim>\<open>FuzzyBytes\<close> the same buffer gives the error, and no digest.\<close>

theorem FuzzyBytes_4096_zero_bytes_fails:
  "FuzzyBytes (replicate 4096 0) = Some (Inr ([], Some ErrSmallBlock))"
  by (simp add: FuzzyBytes_def Let_def zeros_run)

section \<open>The block sizes of the passes\<close>

lemma halvings_nth: "i \<le> j \<Longrightarrow> halvings j ! i = 3 * 2 ^ (j - i)"
proof (induction j arbitrary: i)
  case 0
  then show ?case by simp
next
  case (Suc j)
  then show ?case by (cases i) simp_all
qed

lemma one_not_blockSize: "(1::int) \<noteq> 3 * 2 ^ k"
  using three_le_blockSize [of k] by linarith

lemma one_in_take_halvings:
  assumes "1 \<in> set (take m (halvings j))" and "m \<le> j + 2"
  shows "m = j + 2"
proof (rule ccontr)
  assume "m \<noteq> j + 2"
  with assms(2) have m: "m \<le> j + 1" by simp
  from assms(1) obtain i where i: "i < length (take m (halvings j))"
    "take m (halvings j) ! i = 1"
    by (auto simp: in_set_conv_nth)
  from i(1) m have "i \<le> j" by simp
  from halvings_nth [OF this] i show False
    using one_not_blockSize [of "j - i"] by simp
qed

text \<open>
  C8. In a call that returns, every scanning pass runs with a positive block size that is
  3 times a power of two or else 1. Block size 1 can only be that of the last pass, which
  runs after the pass at block size 3 has failed and is followed by \<^verbatim>\<open>ErrSmallBlock\<close>;
  the block size of a returned digest is 3 times a power of two.
\<close>

theorem pass_block_sizes:
  fixes f :: "'r Reader"
  assumes "FuzzyReader f src sz = Some out"
  shows "(\<forall>b\<in>set (passes out). 0 < b \<and> (b = 1 \<or> (\<exists>k. b = 3 * 2 ^ k)))
       \<and> (\<forall>i. Suc i < length (passes out) \<longrightarrow> (\<exists>k. passes out ! i = 3 * 2 ^ k))
       \<and> (1 \<in> set (passes out) \<longrightarrow> answer out = Inr ([], Some ErrSmallBlock))
       \<and> (\<forall>d. answer out = Inr (d, None) \<longrightarrow>
            (\<exists>k coarse fine. last (passes out) = 3 * 2 ^ k
               \<and> d = FormatInt (3 * 2 ^ k) @ '':'' @ coarse @ '':'' @ fine))"
proof (cases "sz < 4096")
  case True
  with assms have "out = \<lparr>answer = Inr ([], Some ErrSmallInput), source = src, passes = []\<rparr>"
    by (simp add: FuzzyReader_def minFileSize_def)
  then show ?thesis by simp
next
  case False
  then have "4096 \<le> sz" by simp
  from FuzzyReader_in_range [OF assms this] obtain j m :: nat and d0 e0 where
    r: "1 \<le> m" "m \<le> j + 2" "passes out = take m (halvings j)" "answer out = Inr (d0, e0)"
      "m = j + 2 \<longrightarrow> e0 = Some ErrSmallBlock" "m < j + 2 \<longrightarrow> e0 = None"
    by blast
  have elems: "\<forall>b\<in>set (passes out). 0 < b \<and> (b = 1 \<or> (\<exists>k. b = 3 * 2 ^ k))"
  proof
    fix b assume "b \<in> set (passes out)"
    then have "b \<in> set (halvings j)" unfolding r(3) by (rule in_set_takeD)
    then show "0 < b \<and> (b = 1 \<or> (\<exists>k. b = 3 * 2 ^ k))"
      unfolding set_halvings by auto
  qed
  have inner: "\<forall>i. Suc i < length (passes out) \<longrightarrow> (\<exists>k. passes out ! i = 3 * 2 ^ k)"
  proof (intro allI impI)
    fix i assume "Suc i < length (passes out)"
    with r(2,3) have "i \<le> j" "i < m" by simp_all
    with halvings_nth [of i j] show "\<exists>k. passes out ! i = 3 * 2 ^ k"
      unfolding r(3) by auto
  qed
  have one: "1 \<in> set (passes out) \<longrightarrow> answer out = Inr ([], Some ErrSmallBlock)"
  proof
    assume "1 \<in> set (passes out)"
    then have "1 \<in> set (take m (halvings j))" by (simp only: r(3))
    from one_in_take_halvings [OF this r(2)] have "m = j + 2" .
    with r(5) have "e0 = Some ErrSmallBlock" by simp
    with r(4) have e: "answer out = Inr (d0, Some ErrSmallBlock)" by simp
    from FuzzyReader_answers [OF assms]
    show "answer out = Inr ([], Some ErrSmallBlock)"
      unfolding e by (elim disjE) simp_all
  qed
  have dig: "\<forall>d. answer out = Inr (d, None) \<longrightarrow>
      (\<exists>k coarse fine. last (passes out) = 3 * 2 ^ k
         \<and> d = FormatInt (3 * 2 ^ k) @ '':'' @ coarse @ '':'' @ fine)"
  proof (intro allI impI)
    fix d assume a: "answer out = Inr (d, None)"
    from FuzzyReader_digest [OF assms a] obtain state1 where
      s: "d = finish state1" "strings_ok state1" "3 \<le> blockSize state1"
        "passes out \<noteq> []" "last (passes out) = blockSize state1"
      by blast
    from s(4) have "last (passes out) \<in> set (passes out)" by simp
    with elems have "last (passes out) = 1 \<or> (\<exists>k. last (passes out) = 3 * 2 ^ k)"
      by blast
    moreover from s(3,5) have "last (passes out) \<noteq> 1" by simp
    ultimately obtain k where k: "last (passes out) = 3 * 2 ^ k" by blast
    from finish_cases [OF s(2,3)] obtain coarse fine where
      "finish state1 = decimal (nat (blockSize state1)) @ '':'' @ coarse @ '':'' @ fine"
      "FormatInt (blockSize state1) = decimal (nat (blockSize state1))"
      by blast
    with s(1,5) k show "\<exists>k coarse fine. last (passes out) = 3 * 2 ^ k
         \<and> d = FormatInt (3 * 2 ^ k) @ '':'' @ coarse @ '':'' @ fine"
      by (intro exI [of _ k] exI [of _ coarse] exI [of _ fine]) simp
  qed
  from elems inner one dig show ?thesis by blast
qed

text \<open>On 4096 zero bytes the seventh pass runs with block size 1.\<close>

theorem pass_with_block_size_1:
  "map_option passes (FuzzyReader bytes_Reader (bytes_NewReader (replicate 4096 0)) 4096)
   = Some [96, 48, 24, 12, 6, 3, 1]"
  by (simp add: zeros_run)

theorem pass_block_sizes_witness:
  "FuzzyReader \<lparr>Seek = (\<lambda>offset whence k. k + 1), Drain = (\<lambda>k. (([], EOF), k + 100))\<rparr>
     (0::nat) 4096
   = Some \<lparr>answer = Inr ([], Some ErrSmallBlock), source = 707,
           passes = [96, 48, 24, 12, 6, 3, 1]\<rparr>
   \<and> (\<exists>k. (96::int) = 3 * 2 ^ k) \<and> (\<exists>k. (48::int) = 3 * 2 ^ k) \<and> (\<exists>k. (24::int) = 3 * 2 ^ k)
   \<and> (\<exists>k. (12::int) = 3 * 2 ^ k) \<and> (\<exists>k. (6::int) = 3 * 2 ^ k) \<and> (\<exists>k. (3::int) = 3 * 2 ^ k)
   \<and> FuzzyReader bytes_Reader (bytes_NewReader 
       [2, 7, 0, 2, 7, 0, 2, 7, 0, 2, 7, 0, 2, 7, 0, 2, 7, 0, 2, 7, 0, 2, 7, 0, 2, 7, 0,
        2, 7, 0, 2, 7, 0, 2, 7, 0, 2, 7, 0, 2, 7, 0, 2, 7, 0, 2, 7, 0, 2, 7, 0, 2]) 4096
     = Some \<lparr>answer = Inr (''96:1nGnGnGnGnGnGnGnGnGnGnGnGnGnGnGnn:1GGGGGGGGGGGGGGGn'', None),
             source = \<lparr>data = 
       [2, 7, 0, 2, 7, 0, 2, 7, 0, 2, 7, 0, 2, 7, 0, 2, 7, 0, 2, 7, 0, 2, 7, 0, 2, 7, 0,
        2, 7, 0, 2, 7, 0, 2, 7, 0, 2, 7, 0, 2, 7, 0, 2, 7, 0, 2, 7, 0, 2, 7, 0, 2], pos = 52\<rparr>,
             passes = [96]\<rparr>
   \<and> (\<exists>k coarse fine. (96::int) = 3 * 2 ^ k
        \<and> ''96:1nGnGnGnGnGnGnGnGnGnGnGnGnGnGnGnn:1GGGGGGGGGGGGGGGn'' = FormatInt (3 * 2 ^ k) @ '':'' @ coarse @ '':'' @ fine)"
proof -
  let ?out = "\<lparr>answer = Inr ([], Some ErrSmallBlock), source = 707::nat,
           passes = [96, 48, 24, 12, 6, 3, 1]\<rparr>"
  note a = pass_block_sizes [OF counting_source_run]
  from a have inner: "\<forall>i. Suc i < length (passes ?out) \<longrightarrow> (\<exists>k. passes ?out ! i = 3 * 2 ^ k)"
    by blast
  from inner [rule_format, of 0] have k0: "\<exists>k. (96::int) = 3 * 2 ^ k" by simp
  from inner [rule_format, of 1] have k1: "\<exists>k. (48::int) = 3 * 2 ^ k" by simp
  from inner [rule_format, of 2] have k2: "\<exists>k. (24::int) = 3 * 2 ^ k" by simp
  from inner [rule_format, of 3] have k3: "\<exists>k. (12::int) = 3 * 2 ^ k" by simp
  from inner [rule_format, of 4] have k4: "\<exists>k. (6::int) = 3 * 2 ^ k" by simp
  from inner [rule_format, of 5] have k5: "\<exists>k. (3::int) = 3 * 2 ^ k" by simp
  note b = pass_block_sizes [OF sample_run]
  from b have dig: "\<forall>d. answer \<lparr>answer = Inr (''96:1nGnGnGnGnGnGnGnGnGnGnGnGnGnGnGnn:1GGGGGGGGGGGGGGGn'', None),
             source = \<lparr>data = 
       [2, 7, 0, 2, 7, 0, 2, 7, 0, 2, 7, 0, 2, 7, 0, 2, 7, 0, 2, 7, 0, 2, 7, 0, 2, 7, 0,
        2, 7, 0, 2, 7, 0, 2, 7, 0, 2, 7, 0, 2, 7, 0, 2, 7, 0, 2, 7, 0, 2, 7, 0, 2], pos = 52\<rparr>,
             passes = [96]\<rparr> = Inr (d, None) \<longrightarrow>
      (\<exists>k coarse fine. last (passes \<lparr>answer = Inr (''96:1nGnGnGnGnGnGnGnGnGnGnGnGnGnGnGnn:1GGGGGGGGGGGGGGGn'', None),
             source = \<lparr>data = 
       [2, 7, 0, 2, 7, 0, 2, 7, 0, 2, 7, 0, 2, 7, 0, 2, 7, 0, 2, 7, 0, 2, 7, 0, 2, 7, 0,
        2, 7, 0, 2, 7, 0, 2, 7, 0, 2, 7, 0, 2, 7, 0, 2, 7, 0, 2, 7, 0, 2, 7, 0, 2], pos = 52\<rparr>,
             passes = [96]\<rparr>) = 3 * 2 ^ k
         \<and> d = FormatInt (3 * 2 ^ k) @ '':'' @ coarse @ '':'' @ fine)"
    by (elim conjE)
  from dig [rule_format, of "''96:1nGnGnGnGnGnGnGnGnGnGnGnGnGnGnGnn:1GGGGGGGGGGGGGGGn''"]
  have k6: "\<exists>k coarse fine. (96::int) = 3 * 2 ^ k
        \<and> ''96:1nGnGnGnGnGnGnGnGnGnGnGnGnGnGnGnn:1GGGGGGGGGGGGGGGn'' = FormatInt (3 * 2 ^ k) @ '':'' @ coarse @ '':'' @ fine"
    by simp
  show ?thesis
    by (intro conjI) (rule counting_source_run k0 k1 k2 k3 k4 k5 sample_run k6)+
qed

section \<open>Termination\<close>

text \<open>
  Up to a declared length of \<open>3 * 2 ^ 61\<close> every call returns, without a panic, after at
  most \<open>j + 2\<close> passes when the first block size is \<open>3 * 2 ^ j\<close>; the passes run with
  the block sizes \<open>3 * 2 ^ j\<close>, ..., 6, 3, 1 in this order, and the call that runs them
  all returns \<^verbatim>\<open>ErrSmallBlock\<close>.
\<close>

lemma FuzzyReader_returns_in_range:
  fixes f :: "'r Reader"
  assumes "4096 \<le> sz" and "sz \<le> 3 * 2 ^ 61"
  shows "\<exists>out j m d e. FuzzyReader f src sz = Some out
    \<and> j \<le> 55 \<and> sz \<le> 3 * 2 ^ j * 64 \<and> (\<forall>i<j. 3 * 2 ^ i * 64 < sz)
    \<and> 1 \<le> m \<and> m \<le> j + 2 \<and> passes out = take m (halvings j) \<and> answer out = Inr (d, e)
    \<and> (m = j + 2 \<longrightarrow> e = Some ErrSmallBlock) \<and> (m < j + 2 \<longrightarrow> e = None)"
proof -
  from getBlockSize_in_range [OF assms(2), of newSsdeepState] obtain state where
    "getBlockSize sz newSsdeepState = Some state"
    by blast
  with assms(1) have "FuzzyReader f src sz = Some (FuzzyReader_loop f src state [])"
    by (simp add: FuzzyReader_def minFileSize_def)
  with FuzzyReader_in_range [OF this assms(1)] show ?thesis by simp
qed

lemma FuzzyReader_never_returns:
  fixes f :: "'r Reader"
  assumes "3 * 2 ^ 61 < sz"
  shows "FuzzyReader f src sz = None"
proof -
  have "getBlockSize_loop 3 sz = None" by (rule getBlockSize_loop_diverges [OF assms])
  moreover from assms have "\<not> sz < 4096" by simp
  ultimately show ?thesis
    by (simp add: FuzzyReader_def minFileSize_def getBlockSize_def blockMin_def)
qed

text \<open>
  C6. With the largest \<^verbatim>\<open>int64\<close> as the declared size the call never returns, whatever
  the source: the loop of \<^verbatim>\<open>getBlockSize\<close> does not exit, so the shrink loop is never
  reached.
\<close>

theorem FuzzyReader_max_int64_never_returns:
  fixes f :: "'r Reader"
  shows "FuzzyReader f src 9223372036854775807 = None"
  by (rule FuzzyReader_never_returns) simp

end
